theory Spec2Isabelle
  imports Main "HOL-Library.Sublist"
begin

section \<open>Data model (types/RecorderTypes.ts)\<close>

text \<open>
  Every failure of the TypeScript code is a value of \<open>error\<close>. The three
  state-violation errors are the \<open>new Error("...")\<close> thrown by the recorder and the
  replayer; \<open>HostError\<close> carries the message of an exception raised by a collaborator
  (the tab, the file system, the session manager); \<open>TypeError\<close> and \<open>RangeError\<close>
  are raised by the JavaScript runtime itself.
\<close>

datatype error =
    AlreadyRecording
  | NotRecording
  | AlreadyReplaying
  | HostError string
  | TypeError
  | RangeError

text \<open>A JavaScript number as far as this code produces one: \<open>NaN\<close> or an integer.\<close>

datatype number = NaN | Num int

datatype ActionType =
    Click | Input | Select | Navigate | Scroll | Wait | Keypress | Manual_step

record ElementSelector =
  sel_css :: "string option"
  sel_xpath :: "string option"
  sel_text :: "string option"
  sel_id :: "string option"
  sel_name :: "string option"

record RecordedAction =
  act_id :: string
  act_type :: ActionType
  act_timestamp :: int
  act_url :: string
  act_selector :: "ElementSelector option"
  act_value :: "string option"
  act_description :: "string option"
  act_screenshot :: "string option"
  act_isContentField :: "bool option"
  act_contentPlaceholder :: "string option"

record RecordingMetadata =
  targetSite :: "string option"
  duration :: "number option"
  manualSteps :: "nat option"

record Recording =
  rec_id :: string
  rec_name :: string
  rec_description :: "string option"
  createdAt :: number
  updatedAt :: number
  actions :: "RecordedAction list"
  metadata :: "RecordingMetadata option"

text \<open>
  A tab is known to the recorder and the replayer by its reference; the page behind it is
  a state \<open>'p\<close> of the host, changed by the two calls the code makes on a tab.
  The scripts handed to \<open>tab.runJs\<close> are fixed templates: each is represented by its
  kind and the strings interpolated into it.
\<close>

record Tab =
  tab_id :: string
  tab_url :: string

datatype js_script =
    RecorderScript
  | CleanupScript
  | ClickScript string
  | FillScript string string
  | KeyPressScript string

datatype page_call = LoadURL string | RunJs js_script

text \<open>
  The host's page: a call either throws an error with a message (\<open>Some m\<close>) or returns,
  and moves the page.
\<close>

type_synonym 'p page_sem = "page_call \<Rightarrow> 'p \<Rightarrow> string option \<times> 'p"

section \<open>JavaScript strings\<close>

text \<open>
  A string is the list of its code units; the model covers the code units below 256.
  The operations below are the \<open>String.prototype\<close> methods the code calls.
\<close>

definition str_includes :: "string \<Rightarrow> string \<Rightarrow> bool" where
  "str_includes s sub = sublist sub s"

definition startsWith :: "string \<Rightarrow> string \<Rightarrow> bool" where
  "startsWith s pre = prefix pre s"

text \<open>\<open>s.split(sep)\<close> for a non-empty separator: \<open>cur\<close> is the piece being read, reversed.\<close>

function split_from :: "string \<Rightarrow> string \<Rightarrow> string \<Rightarrow> string list" where
  "split_from sep cur [] = [rev cur]"
| "split_from sep cur (c # cs) =
     (if sep \<noteq> [] \<and> prefix sep (c # cs)
      then rev cur # split_from sep [] (drop (length sep) (c # cs))
      else split_from sep (c # cur) cs)"
  by pat_completeness auto
termination
  by (relation "measure (\<lambda>(sep, cur, s). length s)") (auto simp: neq_Nil_conv)

definition split :: "string \<Rightarrow> string \<Rightarrow> string list" where
  "split s sep = split_from sep [] s"

text \<open>\<open>xs[1]\<close> of an array: \<open>undefined\<close> is \<open>None\<close>.\<close>

fun second :: "'a list \<Rightarrow> 'a option" where
  "second (x # y # ys) = Some y"
| "second xs = None"

fun join :: "string list \<Rightarrow> string \<Rightarrow> string" where
  "join [] sep = []"
| "join [x] sep = x"
| "join (x # y # ys) sep = x @ sep @ join (y # ys) sep"

text \<open>White space and line terminators of ECMAScript below code unit 256.\<close>

definition is_space :: "char \<Rightarrow> bool" where
  "is_space c = (c \<in> {CHR 0x09, CHR 0x0A, CHR 0x0B, CHR 0x0C, CHR 0x0D, CHR 0x20, CHR 0xA0})"

definition trim :: "string \<Rightarrow> string" where
  "trim s = rev (dropWhile is_space (rev (dropWhile is_space s)))"

text \<open>\<open>s.replace(/c/g, r)\<close> for a single character \<open>c\<close>.\<close>

definition replace_all :: "char \<Rightarrow> string \<Rightarrow> string \<Rightarrow> string" where
  "replace_all c r s = concat (map (\<lambda>x. if x = c then r else [x]) s)"

definition newline :: string where
  "newline = [CHR 0x0A]"

definition quote :: char where
  "quote = CHR 0x27"

text \<open>Truthiness of an optional string: \<open>undefined\<close> and the empty string are falsy.\<close>

fun truthy :: "string option \<Rightarrow> bool" where
  "truthy None = False"
| "truthy (Some s) = (s \<noteq> [])"

text \<open>\<open>x || d\<close> on an optional string.\<close>

fun or_default :: "string option \<Rightarrow> string \<Rightarrow> string" where
  "or_default None d = d"
| "or_default (Some s) d = (if s = [] then d else s)"

text \<open>Decimal digits of a natural number, and of an integer, as \<open>String(n)\<close> prints them.\<close>

definition digit_char :: "nat \<Rightarrow> char" where
  "digit_char d = char_of (48 + d)"

fun nat_digits :: "nat \<Rightarrow> string" where
  "nat_digits n = (if n < 10 then [digit_char n] else nat_digits (n div 10) @ [digit_char (n mod 10)])"

declare nat_digits.simps [simp del]

definition int_string :: "int \<Rightarrow> string" where
  "int_string i = (if i < 0 then CHR ''-'' # nat_digits (nat (- i)) else nat_digits (nat i))"

fun number_string :: "number \<Rightarrow> string" where
  "number_string NaN = ''NaN''"
| "number_string (Num i) = int_string i"

definition backslash :: char where
  "backslash = CHR 0x5C"

definition dquote :: char where
  "dquote = CHR 0x22"

section \<open>JSON payloads\<close>

text \<open>
  The values \<open>JSON.parse\<close> returns. \<open>JSON.parse\<close> itself is the runtime's: the generator
  takes it as the parameter \<open>jp\<close>, \<open>None\<close> when it throws a SyntaxError. Numbers of a
  payload are integers in this model.
\<close>

datatype json =
    JNull
  | JBool bool
  | JNum int
  | JStr string
  | JArr "json list"
  | JObj "(string \<times> json) list"

type_synonym json_parse = "string \<Rightarrow> json option"

text \<open>\<open>v.k\<close>: a TypeError on \<open>null\<close>, \<open>undefined\<close> (\<open>None\<close>) where there is no such property.\<close>

fun get_prop :: "json \<Rightarrow> string \<Rightarrow> error + json option" where
  "get_prop JNull k = Inl TypeError"
| "get_prop (JObj kvs) k = Inr (map_of (rev kvs) k)"
| "get_prop v k = Inr None"

fun json_truthy :: "json \<Rightarrow> bool" where
  "json_truthy JNull = False"
| "json_truthy (JBool b) = b"
| "json_truthy (JNum n) = (n \<noteq> 0)"
| "json_truthy (JStr s) = (s \<noteq> [])"
| "json_truthy (JArr xs) = True"
| "json_truthy (JObj kvs) = True"

text \<open>The text of a value inside a template literal.\<close>

fun json_text :: "json \<Rightarrow> string" where
  "json_text JNull = ''null''"
| "json_text (JBool b) = (if b then ''true'' else ''false'')"
| "json_text (JNum n) = int_string n"
| "json_text (JStr s) = s"
| "json_text (JArr xs) = join (map (\<lambda>x. if x = JNull then [] else json_text x) xs) '',''"
| "json_text (JObj kvs) = ''[object Object]''"

text \<open>\<open>v || d\<close> for a property that may be missing.\<close>

fun json_or :: "json option \<Rightarrow> json \<Rightarrow> json" where
  "json_or None d = d"
| "json_or (Some v) d = (if json_truthy v then v else d)"

section \<open>Dates\<close>

text \<open>
  \<open>Date.prototype.toISOString\<close> and \<open>new Date(string).getTime()\<close> after ECMAScript's
  definitions: a time value is a number of milliseconds since 1970-01-01T00:00:00Z of
  absolute value at most \<open>8.64e15\<close>; \<open>DayFromYear\<close>, \<open>YearFromTime\<close>, the month and
  the day of the month are computed from the day number. The model of parsing reads the
  complete date-time form with the \<open>Z\<close> suffix that \<open>toISOString\<close> writes; every other
  text, whose reading the standard leaves to the implementation, is \<open>NaN\<close>.
\<close>

definition max_time :: int where
  "max_time = 8640000000000000"

definition ms_per_day :: int where
  "ms_per_day = 86400000"

definition DayFromYear :: "int \<Rightarrow> int" where
  "DayFromYear y = 365 * (y - 1970) + (y - 1969) div 4 - (y - 1901) div 100 + (y - 1601) div 400"

definition InLeapYear :: "int \<Rightarrow> bool" where
  "InLeapYear y = (y mod 4 = 0 \<and> (y mod 100 \<noteq> 0 \<or> y mod 400 = 0))"

text \<open>The largest year whose first day is not after day \<open>d\<close>: an estimate, corrected by one.\<close>

definition YearFromDay :: "int \<Rightarrow> int" where
  "YearFromDay d =
     (let y0 = 1970 + (400 * d) div 146097
      in if d < DayFromYear y0 then y0 - 1
         else if DayFromYear (y0 + 1) \<le> d then y0 + 1
         else y0)"

text \<open>Days of the year before month \<open>m\<close> (1 to 12; 13 gives the length of the year).\<close>

definition days_before_month :: "bool \<Rightarrow> int \<Rightarrow> int" where
  "days_before_month leap m =
     (if m \<le> 1 then 0 else if m = 2 then 31
      else (if leap then 1 else 0) +
        (if m = 3 then 59 else if m = 4 then 90 else if m = 5 then 120
         else if m = 6 then 151 else if m = 7 then 181 else if m = 8 then 212
         else if m = 9 then 243 else if m = 10 then 273 else if m = 11 then 304
         else if m = 12 then 334 else 365))"

definition MonthFromDayInYear :: "bool \<Rightarrow> int \<Rightarrow> int" where
  "MonthFromDayInYear leap n =
     (if n < days_before_month leap 2 then 1 else if n < days_before_month leap 3 then 2
      else if n < days_before_month leap 4 then 3 else if n < days_before_month leap 5 then 4
      else if n < days_before_month leap 6 then 5 else if n < days_before_month leap 7 then 6
      else if n < days_before_month leap 8 then 7 else if n < days_before_month leap 9 then 8
      else if n < days_before_month leap 10 then 9 else if n < days_before_month leap 11 then 10
      else if n < days_before_month leap 12 then 11 else 12)"

text \<open>A natural number in at least \<open>w\<close> decimal digits, zero-padded.\<close>

definition pad :: "nat \<Rightarrow> nat \<Rightarrow> string" where
  "pad w n = replicate (w - length (nat_digits n)) CHR ''0'' @ nat_digits n"

definition year_string :: "int \<Rightarrow> string" where
  "year_string y =
     (if 0 \<le> y \<and> y \<le> 9999 then pad 4 (nat y)
      else if y < 0 then CHR ''-'' # pad 6 (nat (- y))
      else CHR ''+'' # pad 6 (nat y))"

definition iso_string :: "int \<Rightarrow> string" where
  "iso_string t =
     (let day = t div ms_per_day; ms = t mod ms_per_day;
          y = YearFromDay day; n = day - DayFromYear y;
          m = MonthFromDayInYear (InLeapYear y) n;
          dt = n - days_before_month (InLeapYear y) m + 1
      in year_string y @ ''-'' @ pad 2 (nat m) @ ''-'' @ pad 2 (nat dt) @ ''T'' @
         pad 2 (nat (ms div 3600000)) @ '':'' @ pad 2 (nat (ms div 60000 mod 60)) @ '':'' @
         pad 2 (nat (ms div 1000 mod 60)) @ ''.'' @ pad 3 (nat (ms mod 1000)) @ ''Z'')"

text \<open>\<open>new Date(t).toISOString()\<close>: a RangeError when \<open>t\<close> is not a time value.\<close>

fun toISOString :: "number \<Rightarrow> error + string" where
  "toISOString NaN = Inl RangeError"
| "toISOString (Num t) = (if \<bar>t\<bar> \<le> max_time then Inr (iso_string t) else Inl RangeError)"

definition is_digit :: "char \<Rightarrow> bool" where
  "is_digit c = (48 \<le> (of_char c :: nat) \<and> (of_char c :: nat) \<le> 57)"

definition digits_value :: "string \<Rightarrow> nat" where
  "digits_value s = foldl (\<lambda>acc c. 10 * acc + (of_char c - 48)) 0 s"

text \<open>The fixed-width fields after the year: \<open>-MM-DDTHH:mm:ss.sssZ\<close>.\<close>

definition parse_after_year :: "int \<Rightarrow> string \<Rightarrow> number" where
  "parse_after_year y s =
     (if length s = 20 \<and> s ! 0 = CHR ''-'' \<and> s ! 3 = CHR ''-'' \<and> s ! 6 = CHR ''T'' \<and>
         s ! 9 = CHR '':'' \<and> s ! 12 = CHR '':'' \<and> s ! 15 = CHR ''.'' \<and> s ! 19 = CHR ''Z'' \<and>
         list_all is_digit (take 2 (drop 1 s) @ take 2 (drop 4 s) @ take 2 (drop 7 s) @
           take 2 (drop 10 s) @ take 2 (drop 13 s) @ take 3 (drop 16 s))
      then
        let m = int (digits_value (take 2 (drop 1 s)));
            dt = int (digits_value (take 2 (drop 4 s)));
            h = int (digits_value (take 2 (drop 7 s)));
            mi = int (digits_value (take 2 (drop 10 s)));
            sec = int (digits_value (take 2 (drop 13 s)));
            ms = int (digits_value (take 3 (drop 16 s)))
        in if 1 \<le> m \<and> m \<le> 12 \<and> 1 \<le> dt \<and>
              dt \<le> days_before_month (InLeapYear y) (m + 1) - days_before_month (InLeapYear y) m \<and>
              h \<le> 23 \<and> mi \<le> 59 \<and> sec \<le> 59
           then
             let t = (DayFromYear y + days_before_month (InLeapYear y) m + dt - 1) * ms_per_day +
                     h * 3600000 + mi * 60000 + sec * 1000 + ms
             in if \<bar>t\<bar> \<le> max_time then Num t else NaN
           else NaN
      else NaN)"

definition date_parse :: "string \<Rightarrow> number" where
  "date_parse s =
     (case s of
        [] \<Rightarrow> NaN
      | c # cs \<Rightarrow>
          if c = CHR ''+'' \<or> c = CHR ''-'' then
            (if 6 \<le> length cs \<and> list_all is_digit (take 6 cs) \<and>
                \<not> (c = CHR ''-'' \<and> digits_value (take 6 cs) = 0)
             then parse_after_year
                    ((if c = CHR ''-'' then - 1 else 1) * int (digits_value (take 6 cs))) (drop 6 cs)
             else NaN)
          else if 4 \<le> length s \<and> list_all is_digit (take 4 s)
          then parse_after_year (int (digits_value (take 4 s))) (drop 4 s)
          else NaN)"

section \<open>PlaywrightGenerator\<close>

record PlaywrightScriptMetadata =
  m_id :: string
  m_name :: string
  m_description :: "string option"
  m_createdAt :: number
  m_targetSite :: "string option"

definition getPreferredSelector :: "ElementSelector option \<Rightarrow> string" where
  "getPreferredSelector selector =
     (case selector of
        None \<Rightarrow> ''body''
      | Some sel \<Rightarrow>
          if truthy (sel_id sel) then ''#'' @ the (sel_id sel)
          else if truthy (sel_css sel) then the (sel_css sel)
          else if truthy (sel_name sel) then ''[name='' @ [dquote] @ the (sel_name sel) @ [dquote] @ '']''
          else if truthy (sel_xpath sel) then the (sel_xpath sel)
          else ''body'')"

definition getSelectorString :: "ElementSelector option \<Rightarrow> string" where
  "getSelectorString selector = getPreferredSelector selector"

definition escapeSelector :: "string \<Rightarrow> string" where
  "escapeSelector selector = replace_all quote [backslash, quote] selector"

definition escapeValue :: "string \<Rightarrow> string" where
  "escapeValue v =
     replace_all (CHR 0x0D) [backslash, CHR ''r'']
       (replace_all (CHR 0x0A) [backslash, CHR ''n''] (replace_all quote [backslash, quote] v))"

text \<open>The trailing comment \<open> // "text"\<close> when the selector carries a text.\<close>

definition text_comment :: "ElementSelector option \<Rightarrow> string" where
  "text_comment selector =
     (case selector of
        None \<Rightarrow> []
      | Some sel \<Rightarrow>
          if truthy (sel_text sel) then '' // '' @ [dquote] @ the (sel_text sel) @ [dquote] else [])"

definition generateClickCommand :: "RecordedAction \<Rightarrow> string" where
  "generateClickCommand action =
     ''  await page.click('' @ [quote] @ escapeSelector (getPreferredSelector (act_selector action)) @
     [quote] @ '');'' @ text_comment (act_selector action)"

definition generateInputCommand :: "string \<Rightarrow> string \<Rightarrow> ElementSelector option \<Rightarrow> string" where
  "generateInputCommand selectorStr v selectorObj =
     ''  await page.fill('' @ [quote] @ escapeSelector selectorStr @ [quote] @ '', '' @ [quote] @
     escapeValue v @ [quote] @ '');'' @ text_comment selectorObj"

text \<open>
  The key of a keypress: \<open>None\<close> stands for the \<open>catch\<close> branch (the payload is not JSON,
  or it is \<open>null\<close>).
\<close>

definition keypress_key :: "json_parse \<Rightarrow> RecordedAction \<Rightarrow> json option" where
  "keypress_key jp action =
     (case jp (or_default (act_value action) ''{}'') of
        None \<Rightarrow> None
      | Some keyInfo \<Rightarrow>
          (case get_prop keyInfo ''key'' of
             Inl e \<Rightarrow> None
           | Inr k \<Rightarrow> Some (json_or k (JStr ''Enter''))))"

definition generateKeypressCommand :: "json_parse \<Rightarrow> RecordedAction \<Rightarrow> string" where
  "generateKeypressCommand jp action =
     (case keypress_key jp action of
        None \<Rightarrow> ''  await page.keyboard.press('' @ [quote] @ ''Enter'' @ [quote] @ '');''
      | Some k \<Rightarrow>
          if k = JStr ''Enter''
          then ''  await page.keyboard.press('' @ [quote] @ json_text k @ [quote] @
               ''); // May trigger form submission''
          else ''  await page.keyboard.press('' @ [quote] @ json_text k @ [quote] @ '');'')"

definition generateSelectCommand :: "RecordedAction \<Rightarrow> string" where
  "generateSelectCommand action =
     ''  await page.selectOption('' @ [quote] @
     escapeSelector (getPreferredSelector (act_selector action)) @ [quote] @ '', '' @ [quote] @
     escapeValue (or_default (act_value action) []) @ [quote] @ '');''"

text \<open>The two coordinates of a scroll; \<open>None\<close> stands for the \<open>catch\<close> branch.\<close>

definition scroll_coordinates :: "json_parse \<Rightarrow> RecordedAction \<Rightarrow> (json \<times> json) option" where
  "scroll_coordinates jp action =
     (case jp (or_default (act_value action) ''{}'') of
        None \<Rightarrow> None
      | Some scrollData \<Rightarrow>
          (case get_prop scrollData ''x'' of
             Inl e \<Rightarrow> None
           | Inr x \<Rightarrow>
               (case get_prop scrollData ''y'' of
                  Inl e \<Rightarrow> None
                | Inr y \<Rightarrow> Some (json_or x (JNum 0), json_or y (JNum 0)))))"

definition generateScrollCommand :: "json_parse \<Rightarrow> RecordedAction \<Rightarrow> string" where
  "generateScrollCommand jp action =
     (case scroll_coordinates jp action of
        None \<Rightarrow> ''  await page.evaluate(() => window.scrollTo(0, 0));''
      | Some (x, y) \<Rightarrow>
          ''  await page.evaluate(() => window.scrollTo('' @ json_text x @ '', '' @ json_text y @
          ''));'')"

definition generateManualStepComment :: "RecordedAction \<Rightarrow> string" where
  "generateManualStepComment action =
     ''  // MANUAL STEP: '' @ or_default (act_description action) ''Complete this step manually''"

text \<open>
  \<open>parseInt(s)\<close> in radix 10 or, after a \<open>0x\<close> prefix, 16: leading white space, an optional
  sign, then the longest run of digits; \<open>NaN\<close> when there is no digit.
\<close>

definition hex_value :: "char \<Rightarrow> nat option" where
  "hex_value c =
     (let n = (of_char c :: nat)
      in if 48 \<le> n \<and> n \<le> 57 then Some (n - 48)
         else if 97 \<le> n \<and> n \<le> 102 then Some (n - 87)
         else if 65 \<le> n \<and> n \<le> 70 then Some (n - 55)
         else None)"

definition parse_digits :: "nat \<Rightarrow> string \<Rightarrow> number" where
  "parse_digits radix s =
     (let ds = takeWhile (\<lambda>c. case hex_value c of None \<Rightarrow> False | Some d \<Rightarrow> d < radix) s
      in if ds = [] then NaN
         else Num (int (foldl (\<lambda>acc c. radix * acc + the (hex_value c)) 0 ds)))"

fun negate :: "number \<Rightarrow> number" where
  "negate NaN = NaN"
| "negate (Num i) = Num (- i)"

definition parse_unsigned :: "string \<Rightarrow> number" where
  "parse_unsigned s =
     (if prefix ''0x'' s \<or> prefix ''0X'' s then parse_digits 16 (drop 2 s) else parse_digits 10 s)"

definition parseInt :: "string \<Rightarrow> number" where
  "parseInt s =
     (case dropWhile is_space s of
        [] \<Rightarrow> NaN
      | c # cs \<Rightarrow>
          if c = CHR ''-'' then negate (parse_unsigned cs)
          else if c = CHR ''+'' then parse_unsigned cs
          else parse_unsigned (c # cs))"

definition generateWaitCommand :: "RecordedAction \<Rightarrow> string" where
  "generateWaitCommand action =
     ''  await page.waitForTimeout('' @ number_string (parseInt (or_default (act_value action) ''1000'')) @
     '');''"

text \<open>The state of the loop over the actions.\<close>

record gen_state =
  lines :: "string list"
  lastUrl :: "string option"
  consolidatedInputs :: "string \<rightharpoonup> string"
  lastInputSelector :: "string option"

text \<open>
  \<open>flush_pending\<close> is the block at the head of the \<open>click\<close> and \<open>keypress\<close> cases: a
  pending input is written before the command of the action.
\<close>

definition flush_pending :: "RecordedAction \<Rightarrow> gen_state \<Rightarrow> gen_state" where
  "flush_pending action st =
     (if truthy (lastInputSelector st) \<and>
         consolidatedInputs st (the (lastInputSelector st)) \<noteq> None
      then st\<lparr>lines := lines st @
                 [generateInputCommand (the (lastInputSelector st))
                    (the (consolidatedInputs st (the (lastInputSelector st)))) (act_selector action)],
              consolidatedInputs := Map.empty, lastInputSelector := None\<rparr>
      else st)"

definition push :: "string \<Rightarrow> gen_state \<Rightarrow> gen_state" where
  "push l st = st\<lparr>lines := lines st @ [l]\<rparr>"

text \<open>
  The \<open>input\<close> case. \<open>consolidatedInputs.get(k)!\<close> on a missing key is \<open>undefined\<close>,
  and escaping \<open>undefined\<close> is a TypeError.
\<close>

definition input_case ::
  "RecordedAction \<Rightarrow> RecordedAction option \<Rightarrow> gen_state \<Rightarrow> error + gen_state" where
  "input_case action nextAction st =
     (let inputSelector = getSelectorString (act_selector action);
          flushed =
            (if Some inputSelector \<noteq> lastInputSelector st \<and> truthy (lastInputSelector st)
             then (case consolidatedInputs st (the (lastInputSelector st)) of
                     None \<Rightarrow> Inl TypeError
                   | Some v \<Rightarrow>
                       Inr (st\<lparr>lines := lines st @
                                  [generateInputCommand (the (lastInputSelector st)) v
                                     (act_selector action)],
                               consolidatedInputs := Map.empty\<rparr>))
             else Inr st)
      in case flushed of
           Inl e \<Rightarrow> Inl e
         | Inr st1 \<Rightarrow>
             let st2 = st1\<lparr>lastInputSelector := Some inputSelector,
                           consolidatedInputs :=
                             (consolidatedInputs st1)
                               (inputSelector \<mapsto> or_default (act_value action) [])\<rparr>
             in if (case nextAction of
                      None \<Rightarrow> True
                    | Some n \<Rightarrow>
                        act_type n \<noteq> Input \<or> getSelectorString (act_selector n) \<noteq> inputSelector)
                then (case consolidatedInputs st2 inputSelector of
                        None \<Rightarrow> Inl TypeError
                      | Some v \<Rightarrow>
                          Inr (st2\<lparr>lines := lines st2 @
                                     [generateInputCommand inputSelector v (act_selector action)],
                                  consolidatedInputs := Map.empty, lastInputSelector := None\<rparr>))
                else Inr st2)"

definition navigated_comment :: "string \<Rightarrow> string" where
  "navigated_comment url = ''  // Page navigated to: '' @ url"

text \<open>One iteration of the loop: the URL comment, then the \<open>switch\<close>.\<close>

definition process_action ::
  "json_parse \<Rightarrow> RecordedAction \<Rightarrow> RecordedAction option \<Rightarrow> gen_state \<Rightarrow> error + gen_state" where
  "process_action jp action nextAction st =
     (let st0 =
            (if Some (act_url action) \<noteq> lastUrl st
             then (push (navigated_comment (act_url action)) st)
                    \<lparr>lastUrl := Some (act_url action)\<rparr>
             else st)
      in case act_type action of
           Click \<Rightarrow> Inr (push (generateClickCommand action) (flush_pending action st0))
         | Input \<Rightarrow> input_case action nextAction st0
         | Keypress \<Rightarrow> Inr (push (generateKeypressCommand jp action) (flush_pending action st0))
         | Select \<Rightarrow> Inr (push (generateSelectCommand action) st0)
         | Scroll \<Rightarrow> Inr (push (generateScrollCommand jp action) st0)
         | Manual_step \<Rightarrow> Inr (push (generateManualStepComment action) st0)
         | Wait \<Rightarrow> Inr (push (generateWaitCommand action) st0)
         | Navigate \<Rightarrow> Inr st0)"

fun process_actions :: "json_parse \<Rightarrow> RecordedAction list \<Rightarrow> gen_state \<Rightarrow> error + gen_state" where
  "process_actions jp [] st = Inr st"
| "process_actions jp (action # rest) st =
     (case process_action jp action (case rest of [] \<Rightarrow> None | n # ns \<Rightarrow> Some n) st of
        Inl e \<Rightarrow> Inl e
      | Inr st' \<Rightarrow> process_actions jp rest st')"

text \<open>The lines pushed before the loop: the header, the test function, the navigation.\<close>

definition header_lines :: "PlaywrightScriptMetadata \<Rightarrow> string \<Rightarrow> string list" where
  "header_lines md stamp =
     [''import { test, expect } from '@playwright/test';'', [],
      ''// Recording ID: '' @ m_id md,
      ''// Created: '' @ stamp] @
     (if truthy (m_description md) then [''// Description: '' @ the (m_description md)] else []) @
     [[]]"

definition preamble_lines :: "PlaywrightScriptMetadata \<Rightarrow> string list" where
  "preamble_lines md =
     [''test('' @ [quote] @ m_name md @ [quote] @ '', async ({ page }) => {''] @
     (if truthy (m_targetSite md)
      then [''  // Navigate to starting URL'',
            ''  await page.goto('' @ [quote] @ the (m_targetSite md) @ [quote] @ '');'', []]
      else [])"

definition generate_lines ::
  "json_parse \<Rightarrow> PlaywrightScriptMetadata \<Rightarrow> RecordedAction list \<Rightarrow> error + string list" where
  "generate_lines jp md acts =
     (case toISOString (m_createdAt md) of
        Inl e \<Rightarrow> Inl e
      | Inr stamp \<Rightarrow>
          (case process_actions jp acts
                  \<lparr>lines = header_lines md stamp @ preamble_lines md, lastUrl = m_targetSite md,
                   consolidatedInputs = Map.empty, lastInputSelector = None\<rparr> of
             Inl e \<Rightarrow> Inl e
           | Inr st \<Rightarrow> Inr (lines st @ [''});''])))"

definition generate ::
  "json_parse \<Rightarrow> PlaywrightScriptMetadata \<Rightarrow> RecordedAction list \<Rightarrow> error + string" where
  "generate jp md acts =
     (case generate_lines jp md acts of Inl e \<Rightarrow> Inl e | Inr ls \<Rightarrow> Inr (join ls newline))"

section \<open>Regular expressions of the parser and the replayer\<close>

text \<open>
  The expressions used are \<open>test\('([^']+)'\<close>, \<open>goto\('([^']+)'\)\<close> (and the same with
  \<open>click\<close> and \<open>press\<close>) and \<open>fill\('([^']+)',\s*'([^']*)'\)\<close>. In each, a group
  \<open>[^']+\<close> or \<open>[^']*\<close> is followed by a quote and \<open>\s*\<close> is followed by a quote, so
  the greedy reading of a group is the only one that can succeed and no backtracking inside
  an attempt is needed; \<open>match\<close> returns the leftmost attempt that succeeds.
\<close>

text \<open>\<open>pre([^']+)post\<close> read at the start of \<open>s\<close>, where \<open>post\<close> starts with a quote.\<close>

definition capture_at :: "string \<Rightarrow> string \<Rightarrow> string \<Rightarrow> string option" where
  "capture_at pre post s =
     (if prefix pre s
      then let r = drop (length pre) s;
               g = takeWhile (\<lambda>c. c \<noteq> quote) r
           in if g \<noteq> [] \<and> prefix post (drop (length g) r) then Some g else None
      else None)"

text \<open>\<open>fill\('([^']+)',\s*'([^']*)'\)\<close> read at the start of \<open>s\<close>.\<close>

definition fill_at :: "string \<Rightarrow> (string \<times> string) option" where
  "fill_at s =
     (if prefix (''fill('' @ [quote]) s
      then let r = drop 6 s;
               g1 = takeWhile (\<lambda>c. c \<noteq> quote) r;
               r1 = drop (length g1) r
           in if g1 \<noteq> [] \<and> prefix (quote # '','') r1
              then let r2 = dropWhile is_space (drop 2 r1)
                   in if prefix [quote] r2
                      then let g2 = takeWhile (\<lambda>c. c \<noteq> quote) (drop 1 r2)
                           in if prefix (quote # '')'') (drop (length g2) (drop 1 r2))
                              then Some (g1, g2) else None
                      else None
              else None
      else None)"

text \<open>The leftmost position of \<open>s\<close> at which \<open>f\<close> succeeds.\<close>

fun leftmost :: "(string \<Rightarrow> 'a option) \<Rightarrow> string \<Rightarrow> 'a option" where
  "leftmost f [] = f []"
| "leftmost f (c # cs) = (case f (c # cs) of Some x \<Rightarrow> Some x | None \<Rightarrow> leftmost f cs)"

definition match_test :: "string \<Rightarrow> string option" where
  "match_test s = leftmost (capture_at (''test('' @ [quote]) [quote]) s"

definition match_goto :: "string \<Rightarrow> string option" where
  "match_goto s = leftmost (capture_at (''goto('' @ [quote]) (quote # '')'')) s"

definition match_click :: "string \<Rightarrow> string option" where
  "match_click s = leftmost (capture_at (''click('' @ [quote]) (quote # '')'')) s"

definition match_press :: "string \<Rightarrow> string option" where
  "match_press s = leftmost (capture_at (''press('' @ [quote]) (quote # '')'')) s"

definition match_fill :: "string \<Rightarrow> (string \<times> string) option" where
  "match_fill s = leftmost fill_at s"

text \<open>The number of matches of a \<open>/pat/g\<close> expression for a literal, non-empty \<open>pat\<close>.\<close>

function count_matches :: "string \<Rightarrow> string \<Rightarrow> nat" where
  "count_matches pat [] = 0"
| "count_matches pat (c # cs) =
     (if pat \<noteq> [] \<and> prefix pat (c # cs)
      then Suc (count_matches pat (drop (length pat) (c # cs)))
      else count_matches pat cs)"
  by pat_completeness auto
termination
  by (relation "measure (\<lambda>(pat, s). length s)") (auto simp: neq_Nil_conv)

text \<open>\<open>s.replace(pat, r)\<close> for a literal \<open>pat\<close>: the first occurrence only.\<close>

fun replace_first :: "string \<Rightarrow> string \<Rightarrow> string \<Rightarrow> string" where
  "replace_first pat r [] = (if pat = [] then r else [])"
| "replace_first pat r (c # cs) =
     (if prefix pat (c # cs) then r @ drop (length pat) (c # cs)
      else c # replace_first pat r cs)"

section \<open>ActionRecorder: reading a script back\<close>

record parse_vars =
  p_id :: string
  p_name :: string
  p_description :: "string option"
  p_createdAt :: number
  p_targetSite :: "string option"

text \<open>\<open>line.split(marker)[1].trim()\<close>: a TypeError when there is no second piece.\<close>

definition after_marker :: "string \<Rightarrow> string \<Rightarrow> error + string" where
  "after_marker line marker =
     (case second (split line marker) of None \<Rightarrow> Inl TypeError | Some x \<Rightarrow> Inr (trim x))"

text \<open>The body of the loop over the lines: the first test of the chain that holds decides.\<close>

definition parse_line :: "string \<Rightarrow> parse_vars \<Rightarrow> error + parse_vars" where
  "parse_line line v =
     (if str_includes line ''// Recording ID:''
      then (case after_marker line ''// Recording ID:'' of
              Inl e \<Rightarrow> Inl e | Inr x \<Rightarrow> Inr (v\<lparr>p_id := x\<rparr>))
      else if str_includes line ''// Created:''
      then (case after_marker line ''// Created:'' of
              Inl e \<Rightarrow> Inl e | Inr dateStr \<Rightarrow> Inr (v\<lparr>p_createdAt := date_parse dateStr\<rparr>))
      else if str_includes line ''// Description:''
      then (case after_marker line ''// Description:'' of
              Inl e \<Rightarrow> Inl e | Inr x \<Rightarrow> Inr (v\<lparr>p_description := Some x\<rparr>))
      else if str_includes line (''test('' @ [quote])
      then (case match_test line of None \<Rightarrow> Inr v | Some n \<Rightarrow> Inr (v\<lparr>p_name := n\<rparr>))
      else if str_includes line (''await page.goto('' @ [quote])
      then (case match_goto line of None \<Rightarrow> Inr v | Some u \<Rightarrow> Inr (v\<lparr>p_targetSite := Some u\<rparr>))
      else Inr v)"

fun parse_lines :: "string list \<Rightarrow> parse_vars \<Rightarrow> error + parse_vars" where
  "parse_lines [] v = Inr v"
| "parse_lines (line # rest) v =
     (case parse_line line v of Inl e \<Rightarrow> Inl e | Inr v' \<Rightarrow> parse_lines rest v')"

definition parsePlaywrightScript :: "string \<Rightarrow> string \<Rightarrow> error + Recording" where
  "parsePlaywrightScript filename content =
     (let ident = replace_first ''.spec.ts'' [] filename
      in case parse_lines (split content newline)
                \<lparr>p_id = ident, p_name = ident, p_description = None, p_createdAt = Num 0,
                 p_targetSite = None\<rparr> of
           Inl e \<Rightarrow> Inl e
         | Inr v \<Rightarrow>
             Inr \<lparr>rec_id = p_id v, rec_name = p_name v, rec_description = p_description v,
                  createdAt = p_createdAt v, updatedAt = p_createdAt v, actions = [],
                  metadata = Some \<lparr>targetSite = p_targetSite v, duration = None,
                                    manualSteps = Some (count_matches ''// MANUAL STEP:'' content)\<rparr>\<rparr>)"

section \<open>ActionRecorder\<close>

record RecorderState =
  isRecording :: bool
  isPaused :: bool
  currentRecording :: "Recording option"
  recordings :: "Recording list"
  currentTab :: "Tab option"

definition injectRecorderScript :: "'p page_sem \<Rightarrow> Tab \<Rightarrow> 'p \<Rightarrow> error option \<times> 'p" where
  "injectRecorderScript sem tab p =
     (case sem (RunJs RecorderScript) p of
        (Some m, p') \<Rightarrow> (Some (HostError m), p')
      | (None, p') \<Rightarrow> (None, p'))"

text \<open>
  \<open>startRecording\<close>; \<open>uid\<close> is the value of \<open>uuidv4()\<close>, \<open>now1\<close> and \<open>now2\<close> the two
  readings of \<open>Date.now()\<close>.
\<close>

definition startRecording ::
  "'p page_sem \<Rightarrow> string \<Rightarrow> int \<Rightarrow> int \<Rightarrow> Tab \<Rightarrow> string \<Rightarrow> string option \<Rightarrow>
   RecorderState \<Rightarrow> 'p \<Rightarrow> (error + Recording) \<times> RecorderState \<times> 'p" where
  "startRecording sem uid now1 now2 tab nm desc s p =
     (if isRecording s then (Inl AlreadyRecording, s, p)
      else
        let s1 = s\<lparr>currentTab := Some tab\<rparr>;
            recording = \<lparr>rec_id = uid, rec_name = nm, rec_description = desc,
                         createdAt = Num now1, updatedAt = Num now2, actions = [],
                         metadata = Some \<lparr>targetSite = Some (tab_url tab), duration = None,
                                           manualSteps = Some 0\<rparr>\<rparr>;
            s2 = s1\<lparr>currentRecording := Some recording, isRecording := True,
                     isPaused := False\<rparr>
        in case injectRecorderScript sem tab p of
             (Some e, p') \<Rightarrow>
               (Inl e, s2\<lparr>isRecording := False, currentRecording := None,
                           currentTab := None\<rparr>, p')
           | (None, p') \<Rightarrow> (Inr recording, s2, p'))"

definition pauseRecording :: "RecorderState \<Rightarrow> (error + unit) \<times> RecorderState" where
  "pauseRecording s =
     (if \<not> isRecording s then (Inl NotRecording, s)
      else (Inr (), s\<lparr>isPaused := True\<rparr>))"

definition resumeRecording :: "RecorderState \<Rightarrow> (error + unit) \<times> RecorderState" where
  "resumeRecording s =
     (if \<not> isRecording s then (Inl NotRecording, s)
      else (Inr (), s\<lparr>isPaused := False\<rparr>))"

text \<open>The recorder as its constructor leaves it (with the stored recordings \<open>rs\<close>).\<close>

definition initial_recorder :: "Recording list \<Rightarrow> RecorderState" where
  "initial_recorder rs =
     \<lparr>isRecording = False, isPaused = False, currentRecording = None, recordings = rs,
      currentTab = None\<rparr>"

text \<open>A page on which every script injection throws, and one on which none does.\<close>

definition failing_page :: "unit page_sem" where
  "failing_page c p = (Some ''Script failed to execute'', p)"

definition working_page :: "unit page_sem" where
  "working_page c p = (None, p)"

definition example_tab :: Tab where
  "example_tab = \<lparr>tab_id = ''tab-1'', tab_url = ''https://example.com/''\<rparr>"

section \<open>ActionReplayer\<close>

datatype ReplayState = Idle | Running | Paused | ManualStep | Completed | Failed

record ReplayStatus =
  st_state :: ReplayState
  st_currentActionIndex :: nat
  st_totalActions :: nat
  st_error :: "string option"
  st_message :: "string option"

text \<open>
  The fields of the class; \<open>delivered\<close> lists the status objects the observer
  \<open>onStatusChange\<close> has been called with, oldest first (\<open>onStatusChange\<close> itself is
  kept as the fact that an observer is set).
\<close>

record ActionReplayer =
  recording :: "Recording option"
  currentActionIndex :: nat
  state :: ReplayState
  onStatusChange :: bool
  delivered :: "ReplayStatus list"

definition new_replayer :: ActionReplayer where
  "new_replayer =
     \<lparr>recording = None, currentActionIndex = 0, state = Idle, onStatusChange = False,
      delivered = []\<rparr>"

text \<open>\<open>this.recording?.metadata?.manualSteps || 0\<close>\<close>

definition manual_steps_or_0 :: "Recording option \<Rightarrow> nat" where
  "manual_steps_or_0 r =
     (case r of
        None \<Rightarrow> 0
      | Some rc \<Rightarrow>
          (case metadata rc of
             None \<Rightarrow> 0
           | Some md \<Rightarrow> (case manualSteps md of None \<Rightarrow> 0 | Some n \<Rightarrow> n)))"

definition emitStatus :: "string option \<Rightarrow> string option \<Rightarrow> ActionReplayer \<Rightarrow> ActionReplayer" where
  "emitStatus message err r =
     (if onStatusChange r
      then r\<lparr>delivered := delivered r @
                 [\<lparr>st_state = state r, st_currentActionIndex = currentActionIndex r,
                   st_totalActions = manual_steps_or_0 (recording r),
                   st_error = err, st_message = message\<rparr>]\<rparr>
      else r)"

definition getStatus :: "ActionReplayer \<Rightarrow> ReplayStatus" where
  "getStatus r =
     \<lparr>st_state = state r, st_currentActionIndex = currentActionIndex r, st_totalActions = 0,
      st_error = None, st_message = None\<rparr>"

definition pause :: "ActionReplayer \<Rightarrow> ActionReplayer" where
  "pause r = (if state r = Running then emitStatus (Some ''Replay paused'') None (r\<lparr>state := Paused\<rparr>) else r)"

definition resume :: "ActionReplayer \<Rightarrow> ActionReplayer" where
  "resume r =
     (if state r = Paused \<or> state r = ManualStep
      then emitStatus (Some ''Replay resumed'') None (r\<lparr>state := Running\<rparr>)
      else r)"

definition stop :: "ActionReplayer \<Rightarrow> ActionReplayer" where
  "stop r =
     emitStatus (Some ''Replay stopped'') None
       (r\<lparr>state := Idle, recording := None, currentActionIndex := 0\<rparr>)"

subsection \<open>Executing a script in the tab\<close>

text \<open>What the replayer does to the world, in order: calls on the tab, and pauses.\<close>

datatype event = Call page_call | Sleep nat

text \<open>
  \<open>attempt\<close> is a call on the tab followed by \<open>sleep(ms)\<close>: when the call throws, the
  pause is not reached.
\<close>

definition attempt ::
  "'p page_sem \<Rightarrow> page_call \<Rightarrow> nat \<Rightarrow> 'p \<times> event list \<Rightarrow> error option \<times> 'p \<times> event list" where
  "attempt sem c ms w =
     (case sem c (fst w) of
        (Some m, p') \<Rightarrow> (Some (HostError m), p', snd w @ [Call c])
      | (None, p') \<Rightarrow> (None, p', snd w @ [Call c, Sleep ms]))"

text \<open>The body of the \<open>try\<close> for one trimmed line: the error it throws, if any.\<close>

definition try_line ::
  "'p page_sem \<Rightarrow> string \<Rightarrow> 'p \<times> event list \<Rightarrow> error option \<times> 'p \<times> event list" where
  "try_line sem trimmed w =
     (if str_includes trimmed ''await page.goto(''
      then (case match_goto trimmed of
              None \<Rightarrow> (None, w)
            | Some url \<Rightarrow> attempt sem (LoadURL url) 2000 w)
      else if str_includes trimmed ''await page.click(''
      then (case match_click trimmed of
              None \<Rightarrow> (None, w)
            | Some selector \<Rightarrow> attempt sem (RunJs (ClickScript selector)) 500 w)
      else if str_includes trimmed ''await page.fill(''
      then (case match_fill trimmed of
              None \<Rightarrow> (None, w)
            | Some (selector, v) \<Rightarrow> attempt sem (RunJs (FillScript selector v)) 500 w)
      else if str_includes trimmed ''await page.keyboard.press(''
      then (case match_press trimmed of
              None \<Rightarrow> (None, w)
            | Some k \<Rightarrow> attempt sem (RunJs (KeyPressScript k)) 500 w)
      else (None, w))"

text \<open>One iteration: comments, imports and empty lines are skipped; an error is caught.\<close>

definition execute_line :: "'p page_sem \<Rightarrow> string \<Rightarrow> 'p \<times> event list \<Rightarrow> 'p \<times> event list" where
  "execute_line sem line w =
     (let trimmed = trim line
      in if startsWith trimmed ''//'' \<or> startsWith trimmed ''import'' \<or> trimmed = [] then w
         else snd (try_line sem trimmed w))"

fun execute_lines :: "'p page_sem \<Rightarrow> string list \<Rightarrow> 'p \<times> event list \<Rightarrow> 'p \<times> event list" where
  "execute_lines sem [] w = w"
| "execute_lines sem (line # rest) w = execute_lines sem rest (execute_line sem line w)"

text \<open>
  The collaborators of a replay: the page, the script store (\<open>None\<close> when
  \<open>readFileSync\<close> throws), \<open>new URL(s).hostname\<close> (\<open>None\<close> when the URL is invalid)
  and the session manager's \<open>saveSession\<close>.
\<close>

record 'p replay_host =
  page_sem :: "'p page_sem"
  read_script :: "string \<Rightarrow> string option"
  url_hostname :: "string \<Rightarrow> string option"
  saveSession :: "string \<Rightarrow> string option"

definition executePlaywrightInCurrentTab ::
  "'p replay_host \<Rightarrow> string \<Rightarrow> 'p \<times> event list \<Rightarrow> error + 'p \<times> event list" where
  "executePlaywrightInCurrentTab host ident w =
     (case read_script host ident of
        None \<Rightarrow> Inl (HostError ''ENOENT: no such file or directory'')
      | Some scriptContent \<Rightarrow> Inr (execute_lines (page_sem host) (split scriptContent newline) w))"

fun error_message :: "error \<Rightarrow> string" where
  "error_message AlreadyRecording = ''Already recording''"
| "error_message NotRecording = ''Not recording''"
| "error_message AlreadyReplaying = ''Already replaying''"
| "error_message (HostError m) = m"
| "error_message TypeError = ''TypeError''"
| "error_message RangeError = ''RangeError''"

text \<open>The \<open>catch\<close> block of \<open>startReplay\<close>.\<close>

definition replay_failed :: "error \<Rightarrow> ActionReplayer \<Rightarrow> ActionReplayer" where
  "replay_failed e r =
     emitStatus (Some (''Replay failed: '' @ error_message e)) None (r\<lparr>state := Failed\<rparr>)"

text \<open>The last two statements of the \<open>try\<close> block.\<close>

definition replay_completed :: "ActionReplayer \<Rightarrow> ActionReplayer" where
  "replay_completed r =
     emitStatus (Some ''Replay completed successfully'') None (r\<lparr>state := Completed\<rparr>)"

text \<open>
  What follows the execution inside the \<open>try\<close>: the session is saved when the recording
  has a target site, then the replay is completed. \<open>this.recording\<close> is read again, so a
  replayer stopped in the meantime fails here with a TypeError.
\<close>

definition finish_replay ::
  "(string \<Rightarrow> string option) \<Rightarrow> (string \<Rightarrow> string option) \<Rightarrow> ActionReplayer \<Rightarrow>
   (error + unit) \<times> ActionReplayer" where
  "finish_replay hostname save r =
     (case recording r of
        None \<Rightarrow> (Inl TypeError, replay_failed TypeError r)
      | Some rc \<Rightarrow>
          (let site = (case metadata rc of None \<Rightarrow> None | Some md \<Rightarrow> targetSite md);
               saved =
                 (if truthy site
                  then (case hostname (the site) of
                          None \<Rightarrow> Some TypeError
                        | Some domain \<Rightarrow> map_option HostError (save domain))
                  else None)
           in case saved of
                Some e \<Rightarrow> (Inl e, replay_failed e r)
              | None \<Rightarrow> (Inr (), replay_completed r)))"

text \<open>The guard and the assignments at the head of \<open>startReplay\<close>.\<close>

definition begin_replay ::
  "Recording \<Rightarrow> bool \<Rightarrow> ActionReplayer \<Rightarrow> error + ActionReplayer" where
  "begin_replay rc observer r =
     (if state r = Running then Inl AlreadyReplaying
      else Inr (r\<lparr>recording := Some rc, currentActionIndex := 0, state := Running,
                  onStatusChange := observer\<rparr>))"

text \<open>
  \<open>startReplay\<close> run without interruption; \<open>rc\<close> is \<open>options.recording\<close>, \<open>observer\<close>
  tells whether \<open>onStatusChange\<close> was passed.
\<close>

definition startReplay ::
  "'p replay_host \<Rightarrow> Recording \<Rightarrow> bool \<Rightarrow> ActionReplayer \<Rightarrow> 'p \<times> event list \<Rightarrow>
   (error + unit) \<times> ActionReplayer \<times> 'p \<times> event list" where
  "startReplay host rc observer r w =
     (case begin_replay rc observer r of
        Inl e \<Rightarrow> (Inl e, r, w)
      | Inr r1 \<Rightarrow>
          (case executePlaywrightInCurrentTab host (rec_id rc) w of
             Inl e \<Rightarrow> (Inl e, replay_failed e r1, w)
           | Inr w' \<Rightarrow>
               (case finish_replay (url_hostname host) (saveSession host) r1 of
                  (res, r2) \<Rightarrow> (res, r2, w'))))"

text \<open>
  The steps that change a replayer. A replay is asynchronous: \<open>pause\<close>, \<open>resume\<close>,
  \<open>stop\<close> and the head of another \<open>startReplay\<close> may run while one is awaiting the tab
  or the session manager, so the head of \<open>startReplay\<close>, its \<open>catch\<close> block and its
  completion are steps of their own.
\<close>

inductive step :: "ActionReplayer \<Rightarrow> ActionReplayer \<Rightarrow> bool" where
  step_begin: "begin_replay rc observer r = Inr r' \<Longrightarrow> step r r'"
| step_failed: "step r (replay_failed e r)"
| step_completed: "step r (replay_completed r)"
| step_pause: "step r (pause r)"
| step_resume: "step r (resume r)"
| step_stop: "step r (stop r)"

inductive reachable :: "ActionReplayer \<Rightarrow> bool" where
  reach_new: "reachable new_replayer"
| reach_step: "reachable r \<Longrightarrow> step r r' \<Longrightarrow> reachable r'"

text \<open>The calls a script asks for, read off its text alone.\<close>

definition recognized :: "string \<Rightarrow> (page_call \<times> nat) option" where
  "recognized trimmed =
     (if str_includes trimmed ''await page.goto(''
      then map_option (\<lambda>url. (LoadURL url, 2000)) (match_goto trimmed)
      else if str_includes trimmed ''await page.click(''
      then map_option (\<lambda>selector. (RunJs (ClickScript selector), 500)) (match_click trimmed)
      else if str_includes trimmed ''await page.fill(''
      then map_option (\<lambda>(selector, v). (RunJs (FillScript selector v), 500)) (match_fill trimmed)
      else if str_includes trimmed ''await page.keyboard.press(''
      then map_option (\<lambda>k. (RunJs (KeyPressScript k), 500)) (match_press trimmed)
      else None)"

definition line_call :: "string \<Rightarrow> page_call option" where
  "line_call line =
     (let trimmed = trim line
      in if startsWith trimmed ''//'' \<or> startsWith trimmed ''import'' \<or> trimmed = [] then None
         else map_option fst (recognized trimmed))"

fun planned_calls :: "string list \<Rightarrow> page_call list" where
  "planned_calls [] = []"
| "planned_calls (line # rest) =
     (case line_call line of None \<Rightarrow> planned_calls rest | Some c \<Rightarrow> c # planned_calls rest)"

definition script_calls :: "string \<Rightarrow> page_call list" where
  "script_calls content = planned_calls (split content newline)"

text \<open>The calls among the events.\<close>

fun calls :: "event list \<Rightarrow> page_call list" where
  "calls [] = []"
| "calls (Call c # evs) = c # calls evs"
| "calls (Sleep n # evs) = calls evs"


section \<open>Runs of input actions\<close>

text \<open>
  An input action is on the field \<open>k\<close> when its selector resolves to the selector
  string \<open>k\<close>. The maximal runs of consecutive input actions on one field, in order: a
  run starts at an input action and takes every following action for as long as it is an
  input on the same field.
\<close>

definition same_field :: "string \<Rightarrow> RecordedAction \<Rightarrow> bool" where
  "same_field k b = (act_type b = Input \<and> getSelectorString (act_selector b) = k)"

function input_runs :: "RecordedAction list \<Rightarrow> RecordedAction list list" where
  "input_runs [] = []"
| "input_runs (a # rest) =
     (if act_type a \<noteq> Input then input_runs rest
      else (a # takeWhile (same_field (getSelectorString (act_selector a))) rest) #
           input_runs (dropWhile (same_field (getSelectorString (act_selector a))) rest))"
  by pat_completeness auto
termination
  by (relation "measure length") (auto simp: length_dropWhile_le less_Suc_eq_le)

text \<open>The fill command of a run: the field, and the value of the last action of the run.\<close>

definition run_fill :: "RecordedAction list \<Rightarrow> string" where
  "run_fill run =
     generateInputCommand (getSelectorString (act_selector (last run)))
       (or_default (act_value (last run)) []) (act_selector (last run))"

definition is_fill_command :: "string \<Rightarrow> bool" where
  "is_fill_command l = startsWith l (''  await page.fill('' @ [quote])"

text \<open>
  The lines the loop pushes, action by action: \<open>run_ends a rest\<close> tells that the action
  after \<open>a\<close> is not an input on the same field.
\<close>

definition run_ends :: "RecordedAction \<Rightarrow> RecordedAction list \<Rightarrow> bool" where
  "run_ends a rest =
     (case rest of [] \<Rightarrow> True
      | n # ns \<Rightarrow> \<not> same_field (getSelectorString (act_selector a)) n)"

definition command_lines :: "json_parse \<Rightarrow> RecordedAction \<Rightarrow> RecordedAction list \<Rightarrow> string list" where
  "command_lines jp a rest =
     (case act_type a of
        Click \<Rightarrow> [generateClickCommand a]
      | Input \<Rightarrow> (if run_ends a rest then [run_fill [a]] else [])
      | Keypress \<Rightarrow> [generateKeypressCommand jp a]
      | Select \<Rightarrow> [generateSelectCommand a]
      | Scroll \<Rightarrow> [generateScrollCommand jp a]
      | Manual_step \<Rightarrow> [generateManualStepComment a]
      | Wait \<Rightarrow> [generateWaitCommand a]
      | Navigate \<Rightarrow> [])"

fun action_lines :: "json_parse \<Rightarrow> string option \<Rightarrow> RecordedAction list \<Rightarrow> string list" where
  "action_lines jp lu [] = []"
| "action_lines jp lu (a # rest) =
     (if Some (act_url a) \<noteq> lu then [navigated_comment (act_url a)] else []) @
     command_lines jp a rest @ action_lines jp (Some (act_url a)) rest"

text \<open>
  The invariant of the loop: an input is pending only in the middle of a run, that is,
  when the next action is an input on the pending field.
\<close>

definition pending_ok :: "gen_state \<Rightarrow> RecordedAction list \<Rightarrow> bool" where
  "pending_ok st acts =
     (case lastInputSelector st of
        None \<Rightarrow> True
      | Some k \<Rightarrow> (case acts of [] \<Rightarrow> False | a # rest \<Rightarrow> same_field k a))"

fun fills :: "RecordedAction list \<Rightarrow> string list" where
  "fills [] = []"
| "fills (a # rest) =
     (if act_type a = Input \<and> run_ends a rest then [run_fill [a]] else []) @ fills rest"

section \<open>Lines the replayer does not recognize\<close>

text \<open>The four texts by which \<open>executePlaywrightInCurrentTab\<close> tells a command.\<close>

definition recognizers :: "string list" where
  "recognizers =
     [''await page.goto('', ''await page.click('', ''await page.fill('',
      ''await page.keyboard.press('']"

definition no_recognizer :: "string \<Rightarrow> bool" where
  "no_recognizer l = (\<forall>r \<in> set recognizers. \<not> str_includes l r)"

text \<open>
  The texts of an action that the generator copies into the line of a select or a scroll:
  the selector string and the option value, the two coordinates.
\<close>

definition embedded_texts :: "json_parse \<Rightarrow> RecordedAction \<Rightarrow> string list" where
  "embedded_texts jp a =
     (case act_type a of
        Select \<Rightarrow> [getPreferredSelector (act_selector a), or_default (act_value a) []]
      | Scroll \<Rightarrow>
          (case scroll_coordinates jp a of None \<Rightarrow> [] | Some (x, y) \<Rightarrow> [json_text x, json_text y])
      | _ \<Rightarrow> [])"

section \<open>Markers of the script\<close>

text \<open>
  The comment markers that \<open>parsePlaywrightScript\<close> looks for, and the texts of the
  metadata and of an action that the generator copies into the script.
\<close>

definition manual_marker :: string where
  "manual_marker = ''// MANUAL STEP:''"

definition header_markers :: "string list" where
  "header_markers = [''// Recording ID:'', ''// Created:'', ''// Description:'']"

definition markers :: "string list" where
  "markers = header_markers @ [manual_marker]"

definition selector_texts :: "ElementSelector option \<Rightarrow> string list" where
  "selector_texts selector =
     (case selector of
        None \<Rightarrow> []
      | Some sel \<Rightarrow> if truthy (sel_text sel) then [the (sel_text sel)] else [])"

definition action_texts :: "json_parse \<Rightarrow> RecordedAction \<Rightarrow> string list" where
  "action_texts jp a =
     act_url a #
     (case act_type a of
        Click \<Rightarrow> getPreferredSelector (act_selector a) # selector_texts (act_selector a)
      | Input \<Rightarrow>
          getSelectorString (act_selector a) # or_default (act_value a) [] #
          selector_texts (act_selector a)
      | Keypress \<Rightarrow> (case keypress_key jp a of None \<Rightarrow> [] | Some k \<Rightarrow> [json_text k])
      | Select \<Rightarrow> [getPreferredSelector (act_selector a), or_default (act_value a) []]
      | Scroll \<Rightarrow>
          (case scroll_coordinates jp a of None \<Rightarrow> [] | Some (x, y) \<Rightarrow> [json_text x, json_text y])
      | Manual_step \<Rightarrow> [or_default (act_description a) ''Complete this step manually'']
      | Wait \<Rightarrow> []
      | Navigate \<Rightarrow> [])"

definition metadata_texts :: "PlaywrightScriptMetadata \<Rightarrow> string list" where
  "metadata_texts md =
     [m_id md, m_name md] @
     (if truthy (m_description md) then [the (m_description md)] else []) @
     (if truthy (m_targetSite md) then [the (m_targetSite md)] else [])"

text \<open>\<open>free_of m ts\<close>: none of the texts \<open>ts\<close> contains \<open>m\<close>.\<close>

definition free_of :: "string \<Rightarrow> string list \<Rightarrow> bool" where
  "free_of m ts = (\<forall>t \<in> set ts. \<not> str_includes t m)"

text \<open>Checks on the markers and on the fixed pieces of the lines, decided by evaluation.\<close>

definition marker_ok :: "string \<Rightarrow> bool" where
  "marker_ok m =
     (m \<noteq> [] \<and> hd m = CHR ''/'' \<and> quote \<notin> set m \<and> dquote \<notin> set m \<and> CHR '','' \<notin> set m \<and>
      CHR ''('' \<notin> set m \<and> CHR '')'' \<notin> set m \<and> backslash \<notin> set m \<and> CHR 0x0A \<notin> set m)"

definition fixed_pieces :: "string list" where
  "fixed_pieces =
     [''import { test, expect } from '@playwright/test';'', [], ''test('',
      '', async ({ page }) => {'', ''  // Navigate to starting URL'', ''  await page.goto('',
      '');'', ''});'', ''  await page.click('', ''); // '', ''  await page.fill('', '', '',
      ''  await page.keyboard.press('', ''Enter'', ''); // May trigger form submission'',
      ''  await page.selectOption('', ''  await page.evaluate(() => window.scrollTo'',
      ''  await page.evaluate(() => window.scrollTo(0, 0));'', ''));'',
      ''  await page.waitForTimeout'', ''NaN'', '';'']"

text \<open>\<open>no_start m T\<close>: no occurrence of \<open>m\<close> starts inside \<open>T\<close>, whatever follows \<open>T\<close>.\<close>

fun no_start :: "string \<Rightarrow> string \<Rightarrow> bool" where
  "no_start m [] = True"
| "no_start m (c # cs) = (\<not> prefix m (c # cs) \<and> \<not> prefix (c # cs) m \<and> no_start m cs)"

text \<open>
  Saving a recording and loading it again, as \<open>stopRecording\<close> does through
  \<open>saveRecording\<close> and \<open>loadRecordings\<close>: the script is written to the file named by the
  id and parsed from there.
\<close>

definition reload ::
  "json_parse \<Rightarrow> PlaywrightScriptMetadata \<Rightarrow> RecordedAction list \<Rightarrow> error + Recording" where
  "reload jp md acts =
     (case generate jp md acts of
        Inl e \<Rightarrow> Inl e
      | Inr script \<Rightarrow> parsePlaywrightScript (m_id md @ ''.spec.ts'') script)"

section \<open>Texts copied into the script with their line breaks\<close>

definition single_line :: "string \<Rightarrow> bool" where
  "single_line t = (CHR 0x0A \<notin> set t)"


section \<open>Header comments of the script\<close>

text \<open>
  The two texts of the metadata that the parser reads back from a comment line, and the
  three variables of the parser that hold what it read.
\<close>

definition header_texts :: "PlaywrightScriptMetadata \<Rightarrow> string list" where
  "header_texts md =
     m_id md # (if truthy (m_description md) then [the (m_description md)] else [])"

definition header_of :: "parse_vars \<Rightarrow> string \<times> number \<times> string option" where
  "header_of v = (p_id v, p_createdAt v, p_description v)"

section \<open>Example values\<close>

definition paused_recorder :: RecorderState where
  "paused_recorder = (initial_recorder [])\<lparr>isRecording := True, isPaused := True\<rparr>"

definition active_recorder :: RecorderState where
  "active_recorder = (initial_recorder [])\<lparr>isRecording := True\<rparr>"

definition example_script :: string where
  "example_script = join
     [''  await page.click('#go');'',
      ''  await page.click('#missing');'',
      ''  await page.fill('#q', 'ab');'',
      ''  await page.keyboard.press('Enter'); // May trigger form submission''] newline"

text \<open>A page on which the click on \<open>#missing\<close> throws and every other call returns.\<close>

definition drifted_page :: "unit page_sem" where
  "drifted_page c p =
     (if c = RunJs (ClickScript ''#missing'') then (Some ''Element not found: #missing'', p)
      else (None, p))"

definition example_host :: "unit page_sem \<Rightarrow> unit replay_host" where
  "example_host sem =
     \<lparr>page_sem = sem,
      read_script = (\<lambda>i. if i = ''rec-1'' then Some example_script else None),
      url_hostname = (\<lambda>u. if u = ''https://example.com/'' then Some ''example.com'' else None),
      saveSession = (\<lambda>d. None)\<rparr>"

definition example_recording :: Recording where
  "example_recording =
     \<lparr>rec_id = ''rec-1'', rec_name = ''demo'', rec_description = None, createdAt = Num 0,
      updatedAt = Num 0, actions = [],
      metadata = Some \<lparr>targetSite = Some ''https://example.com/'', duration = None,
                        manualSteps = Some 2\<rparr>\<rparr>"

definition completed_replayer :: ActionReplayer where
  "completed_replayer = new_replayer\<lparr>recording := Some example_recording, state := Completed\<rparr>"

definition paused_replayer :: ActionReplayer where
  "paused_replayer = new_replayer\<lparr>recording := Some example_recording, state := Paused\<rparr>"

definition running_replayer :: ActionReplayer where
  "running_replayer = new_replayer\<lparr>recording := Some example_recording, state := Running\<rparr>"

definition started_replayer :: ActionReplayer where
  "started_replayer =
     new_replayer\<lparr>recording := Some example_recording, state := Running, onStatusChange := True\<rparr>"

definition wait_action :: "string option \<Rightarrow> RecordedAction" where
  "wait_action v =
     \<lparr>act_id = ''w'', act_type = Wait, act_timestamp = 0, act_url = ''https://example.com/'',
      act_selector = None, act_value = v, act_description = None, act_screenshot = None,
      act_isContentField = None, act_contentPlaceholder = None\<rparr>"

definition example_action :: "ActionType \<Rightarrow> string \<Rightarrow> string option \<Rightarrow> RecordedAction" where
  "example_action t ident v =
     \<lparr>act_id = ''a'', act_type = t, act_timestamp = 0, act_url = ''https://example.com/'',
      act_selector = Some \<lparr>sel_css = None, sel_xpath = None, sel_text = None,
                            sel_id = Some ident, sel_name = None\<rparr>,
      act_value = v, act_description = None, act_screenshot = None,
      act_isContentField = None, act_contentPlaceholder = None\<rparr>"

definition example_metadata :: PlaywrightScriptMetadata where
  "example_metadata =
     \<lparr>m_id = ''4d6870eb-c94b-42f3-9a1f-e342420cd298'', m_name = ''Recording-1'',
      m_description = Some ''login flow'', m_createdAt = Num 1763340907065,
      m_targetSite = Some ''https://example.com/''\<rparr>"

definition example_actions :: "RecordedAction list" where
  "example_actions =
     [example_action Click ''go'' None,
      example_action Input ''q'' (Some ''a''),
      example_action Input ''q'' (Some ''ab''),
      example_action Input ''r'' (Some ''x''),
      example_action Keypress ''r'' None]"

definition no_json :: json_parse where
  "no_json s = None"

text \<open>A select action on an element whose CSS selector and option value are hostile.\<close>

definition hostile_select :: RecordedAction where
  "hostile_select =
     \<lparr>act_id = ''s'', act_type = Select, act_timestamp = 0, act_url = ''https://example.com/'',
      act_selector = Some \<lparr>sel_css = Some ''await page.click('', sel_xpath = None,
                            sel_text = None, sel_id = None, sel_name = None\<rparr>,
      act_value = Some '')'', act_description = None, act_screenshot = None,
      act_isContentField = None, act_contentPlaceholder = None\<rparr>"

definition manual_step :: "string \<Rightarrow> RecordedAction" where
  "manual_step d =
     \<lparr>act_id = ''m'', act_type = Manual_step, act_timestamp = 0,
      act_url = ''https://example.com/'', act_selector = None, act_value = None,
      act_description = Some d, act_screenshot = None, act_isContentField = None,
      act_contentPlaceholder = None\<rparr>"



text \<open>The example metadata with a description that ends with a space.\<close>

definition padded_metadata :: PlaywrightScriptMetadata where
  "padded_metadata = example_metadata\<lparr>m_description := Some ''login flow ''\<rparr>"

section \<open>Recorder: start, pause, resume\<close>

text \<open>
  C1. When the recorder is idle and the injection of the capture listener throws \<open>e\<close>,
  \<open>startRecording\<close> rethrows \<open>e\<close> and the recorder is idle again: not recording, not
  paused, no current recording, no current tab; the stored recordings are untouched.
\<close>

theorem startRecording_injection_failure:
  assumes "\<not> isRecording s"
    and "injectRecorderScript sem tab p = (Some e, p')"
  shows "startRecording sem uid now1 now2 tab nm desc s p =
           (Inl e, s\<lparr>isRecording := False, isPaused := False, currentRecording := None,
                      currentTab := None\<rparr>, p')"
  using assms by (simp add: startRecording_def Let_def)

theorem startRecording_injection_failure_witness:
  "\<not> isRecording (initial_recorder []) \<and>
   injectRecorderScript failing_page example_tab () =
     (Some (HostError ''Script failed to execute''), ()) \<and>
   startRecording failing_page ''u-1'' 5 6 example_tab ''demo'' None (initial_recorder []) () =
     (Inl (HostError ''Script failed to execute''), initial_recorder [], ())"
proof -
  have a: "\<not> isRecording (initial_recorder [])"
    by (simp add: initial_recorder_def)
  have b: "injectRecorderScript failing_page example_tab () =
      (Some (HostError ''Script failed to execute''), ())"
    by (simp add: injectRecorderScript_def failing_page_def)
  show ?thesis
    using a b startRecording_injection_failure [OF a b, of "''u-1''" 5 6 "''demo''" None]
    by (simp add: initial_recorder_def)
qed

text \<open>
  C6, as the claim states it, fails: pausing a recorder that is already paused succeeds,
  and so does resuming one that is recording and not paused.
\<close>

theorem pause_resume_counterexample:
  "isRecording paused_recorder \<and> isPaused paused_recorder \<and>
   pauseRecording paused_recorder = (Inr (), paused_recorder) \<and>
   isRecording active_recorder \<and> \<not> isPaused active_recorder \<and>
   resumeRecording active_recorder = (Inr (), active_recorder)"
  by (simp add: paused_recorder_def active_recorder_def initial_recorder_def
      pauseRecording_def resumeRecording_def)

text \<open>
  C6, amended. \<open>pauseRecording\<close> and \<open>resumeRecording\<close> fail with the not-recording error
  exactly when \<open>isRecording\<close> is false, and then change nothing; when \<open>isRecording\<close> is
  true they succeed whatever \<open>isPaused\<close> was, and set it to true and to false.
\<close>

theorem pause_resume_guard:
  "(isRecording s \<longrightarrow>
      pauseRecording s = (Inr (), s\<lparr>isPaused := True\<rparr>) \<and>
      resumeRecording s = (Inr (), s\<lparr>isPaused := False\<rparr>)) \<and>
   (\<not> isRecording s \<longrightarrow>
      pauseRecording s = (Inl NotRecording, s) \<and> resumeRecording s = (Inl NotRecording, s))"
  by (simp add: pauseRecording_def resumeRecording_def)

theorem pause_resume_guard_witness:
  "pauseRecording active_recorder = (Inr (), paused_recorder) \<and>
   resumeRecording paused_recorder = (Inr (), active_recorder) \<and>
   pauseRecording (initial_recorder []) = (Inl NotRecording, initial_recorder []) \<and>
   resumeRecording (initial_recorder []) = (Inl NotRecording, initial_recorder [])"
  using pause_resume_guard [of active_recorder] pause_resume_guard [of paused_recorder]
    pause_resume_guard [of "initial_recorder []"]
  by (simp add: paused_recorder_def active_recorder_def initial_recorder_def)

section \<open>Replayer: the guard of startReplay\<close>

text \<open>
  C4, as the claim states it, fails: a replayer whose last replay is completed is not idle,
  and \<open>startReplay\<close> on it runs the script and succeeds.
\<close>

theorem startReplay_not_idle_counterexample:
  "state completed_replayer \<noteq> Idle \<and>
   startReplay (example_host working_page) example_recording False completed_replayer ((), []) =
     (Inr (), completed_replayer,
      (), [Call (RunJs (ClickScript ''#go'')), Sleep 500,
           Call (RunJs (ClickScript ''#missing'')), Sleep 500,
           Call (RunJs (FillScript ''#q'' ''ab'')), Sleep 500,
           Call (RunJs (KeyPressScript ''Enter'')), Sleep 500])"
  by code_simp

lemma finish_replay_error: "fst (finish_replay hn sv r) \<noteq> Inl AlreadyReplaying"
  by (auto simp: finish_replay_def Let_def split: option.splits)

text \<open>
  C4, amended. \<open>startReplay\<close> fails with the already-replaying error exactly when the
  state is \<open>running\<close>, and then changes neither the replayer nor the page. In every other
  state (idle, paused, manual_step, completed, error) it does not fail with that error, and
  it executes the lines of the script whenever the script can be read.
\<close>

theorem startReplay_guard:
  "(state r = Running \<longrightarrow> startReplay host rc observer r w = (Inl AlreadyReplaying, r, w)) \<and>
   (state r \<noteq> Running \<longrightarrow>
      fst (startReplay host rc observer r w) \<noteq> Inl AlreadyReplaying \<and>
      (\<forall>content. read_script host (rec_id rc) = Some content \<longrightarrow>
         snd (snd (startReplay host rc observer r w)) =
           execute_lines (page_sem host) (split content newline) w))"
proof -
  have "fst (case finish_replay hn sv r1 of (res, r2) \<Rightarrow> (res, r2, w')) \<noteq> Inl AlreadyReplaying"
    for hn sv r1 and w' :: "'a \<times> event list"
    using finish_replay_error [of hn sv r1] by (cases "finish_replay hn sv r1") auto
  then show ?thesis
    by (auto simp: startReplay_def begin_replay_def executePlaywrightInCurrentTab_def
        split: option.splits prod.splits)
qed

theorem startReplay_guard_witness:
  "startReplay (example_host working_page) example_recording False running_replayer ((), []) =
     (Inl AlreadyReplaying, running_replayer, (), []) \<and>
   fst (startReplay (example_host working_page) example_recording False paused_replayer ((), []))
     \<noteq> Inl AlreadyReplaying \<and>
   snd (snd (startReplay (example_host working_page) example_recording False paused_replayer ((), []))) =
     execute_lines working_page (split example_script newline) ((), [])"
proof -
  have a: "state running_replayer = Running" by (simp add: running_replayer_def)
  have b: "state paused_replayer \<noteq> Running" by (simp add: paused_replayer_def)
  have c: "read_script (example_host working_page) (rec_id example_recording) = Some example_script"
    by (simp add: example_host_def example_recording_def)
  have d: "page_sem (example_host working_page) = working_page" by (simp add: example_host_def)
  show ?thesis
    using a b c d
      startReplay_guard [of running_replayer "example_host working_page" example_recording False "((), [])"]
      startReplay_guard [of paused_replayer "example_host working_page" example_recording False "((), [])"]
    by simp
qed

section \<open>Replayer: failure isolation\<close>

lemma calls_append [simp]: "calls (xs @ ys) = calls xs @ calls ys"
  by (induction xs rule: calls.induct) auto

lemma attempt_calls: "calls (snd (snd (attempt sem c ms w))) = calls (snd w) @ [c]"
  by (simp add: attempt_def split: prod.splits option.splits)

lemma try_line_recognized:
  "calls (snd (snd (try_line sem t w))) =
     calls (snd w) @ (case recognized t of None \<Rightarrow> [] | Some (c, ms) \<Rightarrow> [c])"
  by (auto simp: try_line_def recognized_def attempt_calls split: option.splits)

lemma execute_line_calls:
  "calls (snd (execute_line sem line w)) =
     calls (snd w) @ (case line_call line of None \<Rightarrow> [] | Some c \<Rightarrow> [c])"
  by (auto simp: execute_line_def line_call_def Let_def try_line_recognized split: option.splits)

lemma execute_lines_calls:
  "calls (snd (execute_lines sem ls w)) = calls (snd w) @ planned_calls ls"
  by (induction ls arbitrary: w) (auto simp: execute_line_calls split: option.splits)

text \<open>
  C7. Whatever the page does (any call on it may throw), executing a readable script returns
  without an error, and the calls made on the tab are the calls of all the recognized lines
  of the script, in order: a call that throws does not keep a later line from being
  executed. The replay then ends as the step after the execution decides, whatever the
  page did.
\<close>

theorem replay_continues_after_failure:
  assumes "read_script host ident = Some content"
  shows "(\<exists>w'. executePlaywrightInCurrentTab host ident w = Inr w' \<and>
               calls (snd w') = calls (snd w) @ script_calls content) \<and>
         (state r \<noteq> Running \<and> ident = rec_id rc \<longrightarrow>
            fst (startReplay host rc observer r w) =
              fst (finish_replay (url_hostname host) (saveSession host)
                     (r\<lparr>recording := Some rc, currentActionIndex := 0, state := Running,
                        onStatusChange := observer\<rparr>)))"
  using assms
  by (auto simp: executePlaywrightInCurrentTab_def execute_lines_calls script_calls_def
      startReplay_def begin_replay_def split: prod.splits)

theorem replay_continues_after_failure_witness:
  "read_script (example_host drifted_page) ''rec-1'' = Some example_script \<and>
   executePlaywrightInCurrentTab (example_host drifted_page) ''rec-1'' ((), []) =
     Inr ((), [Call (RunJs (ClickScript ''#go'')), Sleep 500,
               Call (RunJs (ClickScript ''#missing'')),
               Call (RunJs (FillScript ''#q'' ''ab'')), Sleep 500,
               Call (RunJs (KeyPressScript ''Enter'')), Sleep 500]) \<and>
   script_calls example_script =
     [RunJs (ClickScript ''#go''), RunJs (ClickScript ''#missing''),
      RunJs (FillScript ''#q'' ''ab''), RunJs (KeyPressScript ''Enter'')] \<and>
   fst (startReplay (example_host drifted_page) example_recording False new_replayer ((), [])) =
     Inr ()"
proof -
  have a: "read_script (example_host drifted_page) ''rec-1'' = Some example_script"
    by (simp add: example_host_def)
  have b: "executePlaywrightInCurrentTab (example_host drifted_page) ''rec-1'' ((), []) =
     Inr ((), [Call (RunJs (ClickScript ''#go'')), Sleep 500,
               Call (RunJs (ClickScript ''#missing'')),
               Call (RunJs (FillScript ''#q'' ''ab'')), Sleep 500,
               Call (RunJs (KeyPressScript ''Enter'')), Sleep 500])"
    by code_simp
  have c: "fst (startReplay (example_host drifted_page) example_recording False new_replayer
      ((), [])) = Inr ()"
    by code_simp
  from replay_continues_after_failure [OF a, of "((), [])" new_replayer example_recording False] b
  have "script_calls example_script =
     [RunJs (ClickScript ''#go''), RunJs (ClickScript ''#missing''),
      RunJs (FillScript ''#q'' ''ab''), RunJs (KeyPressScript ''Enter'')]"
    by simp
  with a b c show ?thesis by simp
qed

section \<open>Replayer: status reports\<close>

lemma emitStatus_fields [simp]:
  "recording (emitStatus m e r) = recording r"
  "currentActionIndex (emitStatus m e r) = currentActionIndex r"
  "state (emitStatus m e r) = state r"
  "onStatusChange (emitStatus m e r) = onStatusChange r"
  by (simp_all add: emitStatus_def)

lemma emitStatus_delivered:
  "delivered (emitStatus m e r) =
     delivered r @ (if onStatusChange r then
       [\<lparr>st_state = state r, st_currentActionIndex = currentActionIndex r,
         st_totalActions = manual_steps_or_0 (recording r), st_error = e, st_message = m\<rparr>] else [])"
  by (simp add: emitStatus_def)

lemma step_index:
  assumes "step r r'" and "currentActionIndex r = 0"
  shows "currentActionIndex r' = 0"
  using assms
  by (induction rule: step.induct)
     (auto simp: begin_replay_def replay_failed_def replay_completed_def pause_def resume_def
        stop_def split: if_splits)

lemma reachable_index: "reachable r \<Longrightarrow> currentActionIndex r = 0"
  by (induction rule: reachable.induct) (auto simp: new_replayer_def dest: step_index)

lemma step_delivered:
  assumes "step r r'"
  shows "\<exists>new. delivered r' = delivered r @ new \<and>
           (\<forall>st \<in> set new. st_currentActionIndex st = currentActionIndex r' \<and>
                            st_totalActions st = manual_steps_or_0 (recording r'))"
  using assms
  by (induction rule: step.induct)
     (auto simp: begin_replay_def replay_failed_def replay_completed_def pause_def resume_def
        stop_def emitStatus_delivered split: if_splits)

lemma reachable_delivered:
  "reachable r \<Longrightarrow> \<forall>st \<in> set (delivered r). st_currentActionIndex st = 0"
proof (induction rule: reachable.induct)
  case reach_new
  then show ?case by (simp add: new_replayer_def)
next
  case (reach_step r r')
  from step_delivered [OF reach_step.hyps(2)] obtain new where
    n: "delivered r' = delivered r @ new"
       "\<forall>st \<in> set new. st_currentActionIndex st = currentActionIndex r'" by blast
  have "currentActionIndex r' = 0"
    using reach_step.hyps reachable.reach_step reachable_index by blast
  with n reach_step.IH show ?case by auto
qed

text \<open>The uninterrupted operations stay within the reachable states.\<close>

lemma finish_replay_step: "step r (snd (finish_replay hn sv r))"
  by (auto simp: finish_replay_def Let_def step_failed step_completed split: option.splits)

lemma startReplay_reachable:
  assumes "reachable r"
  shows "reachable (fst (snd (startReplay host rc observer r w)))"
proof (cases "begin_replay rc observer r")
  case (Inl e)
  with assms show ?thesis by (simp add: startReplay_def)
next
  case (Inr r1)
  then have r1: "reachable r1" using assms step_begin reach_step by blast
  show ?thesis
  proof (cases "executePlaywrightInCurrentTab host (rec_id rc) w")
    case (Inl e)
    with Inr r1 show ?thesis
      by (simp add: startReplay_def) (blast intro: reach_step step_failed)
  next
    case (Inr w')
    have "reachable (snd (finish_replay (url_hostname host) (saveSession host) r1))"
      using r1 finish_replay_step reach_step by blast
    with \<open>begin_replay rc observer r = Inr r1\<close> Inr show ?thesis
      by (simp add: startReplay_def split: prod.splits) (metis snd_conv)
  qed
qed

text \<open>
  C10. In every state the replayer can reach, \<open>getStatus\<close> reports \<open>currentActionIndex\<close> 0
  and \<open>totalActions\<close> 0, and every status the observer has received has
  \<open>currentActionIndex\<close> 0. Every step appends to what the observer has received, and
  each status it appends has \<open>currentActionIndex\<close> 0 and, as \<open>totalActions\<close>, the
  manual-step count of the recording the replayer holds after the step (0 when it holds
  none, as after \<open>stop\<close>): a number that does not depend on the commands executed.
\<close>

theorem replayer_reports_no_progress:
  assumes "reachable r"
  shows "st_currentActionIndex (getStatus r) = 0 \<and> st_totalActions (getStatus r) = 0 \<and>
         (\<forall>st \<in> set (delivered r). st_currentActionIndex st = 0) \<and>
         (\<forall>r'. step r r' \<longrightarrow>
            prefix (delivered r) (delivered r') \<and>
            (\<forall>st \<in> set (drop (length (delivered r)) (delivered r')).
               st_currentActionIndex st = 0 \<and>
               st_totalActions st = manual_steps_or_0 (recording r')))"
proof -
  have a: "st_currentActionIndex (getStatus r) = 0 \<and> st_totalActions (getStatus r) = 0"
    using reachable_index [OF assms] by (simp add: getStatus_def)
  have b: "\<forall>st \<in> set (delivered r). st_currentActionIndex st = 0"
    using reachable_delivered [OF assms] .
  have c: "prefix (delivered r) (delivered r') \<and>
            (\<forall>st \<in> set (drop (length (delivered r)) (delivered r')).
               st_currentActionIndex st = 0 \<and>
               st_totalActions st = manual_steps_or_0 (recording r'))" if s: "step r r'" for r'
  proof -
    from step_delivered [OF s] obtain new where
      n: "delivered r' = delivered r @ new"
         "\<forall>st \<in> set new. st_currentActionIndex st = currentActionIndex r' \<and>
                            st_totalActions st = manual_steps_or_0 (recording r')" by blast
    have "currentActionIndex r' = 0"
      using step_index [OF s reachable_index [OF assms]] .
    with n show ?thesis by auto
  qed
  from a b c show ?thesis by blast
qed

lemma started_reachable: "reachable started_replayer"
proof -
  have "begin_replay example_recording True new_replayer = Inr started_replayer"
    by (simp add: begin_replay_def new_replayer_def started_replayer_def)
  then show ?thesis using reach_new reach_step step_begin by blast
qed

theorem replayer_reports_no_progress_witness:
  "reachable (pause started_replayer) \<and>
   getStatus (pause started_replayer) =
     \<lparr>st_state = Paused, st_currentActionIndex = 0, st_totalActions = 0, st_error = None,
      st_message = None\<rparr> \<and>
   delivered (pause started_replayer) =
     [\<lparr>st_state = Paused, st_currentActionIndex = 0, st_totalActions = 2, st_error = None,
       st_message = Some ''Replay paused''\<rparr>] \<and>
   delivered (stop (pause started_replayer)) =
     [\<lparr>st_state = Paused, st_currentActionIndex = 0, st_totalActions = 2, st_error = None,
       st_message = Some ''Replay paused''\<rparr>,
      \<lparr>st_state = Idle, st_currentActionIndex = 0, st_totalActions = 0, st_error = None,
       st_message = Some ''Replay stopped''\<rparr>]"
proof -
  have r: "reachable (pause started_replayer)"
    using started_reachable reach_step step_pause by blast
  have s: "step (pause started_replayer) (stop (pause started_replayer))"
    by (rule step_stop)
  have d: "delivered (pause started_replayer) =
     [\<lparr>st_state = Paused, st_currentActionIndex = 0, st_totalActions = 2, st_error = None,
       st_message = Some ''Replay paused''\<rparr>]"
    by (simp add: pause_def started_replayer_def new_replayer_def emitStatus_def
        manual_steps_or_0_def example_recording_def)
  have e: "delivered (stop (pause started_replayer)) =
     [\<lparr>st_state = Paused, st_currentActionIndex = 0, st_totalActions = 2, st_error = None,
       st_message = Some ''Replay paused''\<rparr>,
      \<lparr>st_state = Idle, st_currentActionIndex = 0, st_totalActions = 0, st_error = None,
       st_message = Some ''Replay stopped''\<rparr>]"
    by (simp add: stop_def pause_def started_replayer_def new_replayer_def emitStatus_def
        manual_steps_or_0_def example_recording_def)
  have g: "getStatus (pause started_replayer) =
     \<lparr>st_state = Paused, st_currentActionIndex = 0, st_totalActions = 0, st_error = None,
      st_message = None\<rparr>"
    by (simp add: getStatus_def pause_def started_replayer_def new_replayer_def)
  from replayer_reports_no_progress [OF r] r s d e g show ?thesis by simp
qed

section \<open>Generator: wait actions\<close>

text \<open>
  C5. A wait action whose value is the non-numeric text \<open>abc\<close> is written as a pause of
  \<open>NaN\<close>, not of 1000 milliseconds; the default of 1000 is used when the value is missing
  or empty, and a numeric value is used as it is.
\<close>

theorem wait_unparsable_value:
  "generateWaitCommand (wait_action (Some ''abc'')) = ''  await page.waitForTimeout(NaN);'' \<and>
   generateWaitCommand (wait_action None) = ''  await page.waitForTimeout(1000);'' \<and>
   generateWaitCommand (wait_action (Some [])) = ''  await page.waitForTimeout(1000);'' \<and>
   generateWaitCommand (wait_action (Some ''250'')) = ''  await page.waitForTimeout(250);''"
  by code_simp

section \<open>Generator: consolidation of inputs\<close>

text \<open>The loop never fails, and pushes the lines of \<open>action_lines\<close>.\<close>

lemma process_action_lines:
  assumes "pending_ok st (a # rest)"
  shows "\<exists>st'. process_action jp a (case rest of [] \<Rightarrow> None | n # ns \<Rightarrow> Some n) st = Inr st' \<and>
           lines st' = lines st @
             (if Some (act_url a) \<noteq> lastUrl st then [navigated_comment (act_url a)] else []) @
             command_lines jp a rest \<and>
           lastUrl st' = Some (act_url a) \<and> pending_ok st' rest"
proof (cases "act_type a")
  case Input
  then show ?thesis using assms
    by (cases rest; cases "lastInputSelector st")
       (auto simp: process_action_def input_case_def pending_ok_def same_field_def push_def
          command_lines_def run_ends_def run_fill_def Let_def)
qed (use assms in \<open>auto simp: process_action_def pending_ok_def same_field_def push_def
          flush_pending_def command_lines_def split: option.splits\<close>)

lemma process_actions_lines:
  assumes "pending_ok st acts"
  shows "\<exists>st'. process_actions jp acts st = Inr st' \<and>
           lines st' = lines st @ action_lines jp (lastUrl st) acts"
  using assms
proof (induction acts arbitrary: st)
  case Nil
  then show ?case by simp
next
  case (Cons a rest)
  from process_action_lines [OF Cons.prems, of jp] obtain st1 where
    s: "process_action jp a (case rest of [] \<Rightarrow> None | n # ns \<Rightarrow> Some n) st = Inr st1"
       "lines st1 = lines st @
             (if Some (act_url a) \<noteq> lastUrl st then [navigated_comment (act_url a)] else []) @
             command_lines jp a rest"
       "lastUrl st1 = Some (act_url a)" "pending_ok st1 rest" by blast
  from Cons.IH [OF s(4)] obtain st' where
    t: "process_actions jp rest st1 = Inr st'"
       "lines st' = lines st1 @ action_lines jp (lastUrl st1) rest" by blast
  from s t show ?case by simp
qed

lemma is_fill_run_fill [simp]: "is_fill_command (run_fill run)"
  by (simp add: is_fill_command_def run_fill_def generateInputCommand_def startsWith_def)

lemma not_fill_templates [simp]:
  "\<not> is_fill_command (navigated_comment u)"
  "\<not> is_fill_command (generateClickCommand a)"
  "\<not> is_fill_command (generateKeypressCommand jp a)"
  "\<not> is_fill_command (generateSelectCommand a)"
  "\<not> is_fill_command (generateScrollCommand jp a)"
  "\<not> is_fill_command (generateManualStepComment a)"
  "\<not> is_fill_command (generateWaitCommand a)"
  by (simp_all add: is_fill_command_def startsWith_def generateClickCommand_def navigated_comment_def
      generateKeypressCommand_def generateSelectCommand_def generateScrollCommand_def
      generateManualStepComment_def generateWaitCommand_def split: option.splits prod.splits)

lemma filter_command_lines:
  "filter is_fill_command (command_lines jp a rest) =
     (if act_type a = Input \<and> run_ends a rest then [run_fill [a]] else [])"
  by (cases "act_type a") (simp_all add: command_lines_def)

lemma filter_action_lines: "filter is_fill_command (action_lines jp lu acts) = fills acts"
  by (induction acts arbitrary: lu) (simp_all add: filter_command_lines)

lemma fills_run:
  assumes "same_field k a" and "\<forall>b \<in> set r. same_field k b"
    and "d = [] \<or> \<not> same_field k (hd d)"
  shows "fills (a # r @ d) = run_fill (a # r) # fills d"
  using assms
proof (induction r arbitrary: a)
  case Nil
  then show ?case
    by (cases d) (auto simp: run_ends_def same_field_def)
next
  case (Cons b r)
  have "\<not> run_ends a (b # r @ d)"
    using Cons.prems by (auto simp: run_ends_def same_field_def)
  moreover have "fills (b # r @ d) = run_fill (b # r) # fills d"
    using Cons by simp
  moreover have "run_fill (a # b # r) = run_fill (b # r)"
    by (simp add: run_fill_def)
  ultimately show ?case by simp
qed

lemma fills_input_runs: "fills acts = map run_fill (input_runs acts)"
proof (induction acts rule: input_runs.induct)
  case 1
  then show ?case by simp
next
  case (2 a rest)
  show ?case
  proof (cases "act_type a = Input")
    case False
    with 2 show ?thesis by simp
  next
    case True
    let ?k = "getSelectorString (act_selector a)"
    let ?r = "takeWhile (same_field ?k) rest"
    let ?d = "dropWhile (same_field ?k) rest"
    have "fills (a # ?r @ ?d) = run_fill (a # ?r) # fills ?d"
    proof (rule fills_run)
      show "same_field ?k a" using True by (simp add: same_field_def)
      show "\<forall>b \<in> set ?r. same_field ?k b" by (auto dest: set_takeWhileD)
      show "?d = [] \<or> \<not> same_field ?k (hd ?d)" by (metis hd_dropWhile)
    qed
    with True 2 show ?thesis by simp
  qed
qed

lemma concat_input_runs: "concat (input_runs acts) = filter (\<lambda>a. act_type a = Input) acts"
proof (induction acts rule: input_runs.induct)
  case 1
  then show ?case by simp
next
  case (2 a rest)
  let ?P = "same_field (getSelectorString (act_selector a))"
  have "filter (\<lambda>a. act_type a = Input) rest =
      filter (\<lambda>a. act_type a = Input) (takeWhile ?P rest @ dropWhile ?P rest)"
    by simp
  also have "\<dots> = takeWhile ?P rest @ filter (\<lambda>a. act_type a = Input) (dropWhile ?P rest)"
    unfolding filter_append
    by (simp add: filter_id_conv) (auto simp: same_field_def dest: set_takeWhileD)
  finally show ?case using 2 by simp
qed

text \<open>
  On a valid creation time the generator does not fail, and the fill commands among the
  lines it pushes (before they are joined) are, in order, those of the maximal runs.
\<close>

lemma pushed_fill_commands:
  assumes "toISOString (m_createdAt md) = Inr stamp"
  shows "\<exists>ls. generate_lines jp md acts = Inr ls \<and>
              filter is_fill_command ls = map run_fill (input_runs acts)"
proof -
  let ?st = "\<lparr>lines = header_lines md stamp @ preamble_lines md, lastUrl = m_targetSite md,
               consolidatedInputs = Map.empty, lastInputSelector = None\<rparr>"
  have "pending_ok ?st acts" by (simp add: pending_ok_def)
  from process_actions_lines [OF this, of jp] obtain st' where
    s: "process_actions jp acts ?st = Inr st'"
       "lines st' = lines ?st @ action_lines jp (lastUrl ?st) acts" by blast
  have h: "filter is_fill_command (header_lines md stamp @ preamble_lines md) = []"
    by (simp add: header_lines_def preamble_lines_def is_fill_command_def startsWith_def)
  have e: "\<not> is_fill_command ''});''"
    by (simp add: is_fill_command_def startsWith_def)
  from s h e assms show ?thesis
    by (simp add: generate_lines_def filter_action_lines fills_input_runs)
qed

section \<open>Replayer: select, scroll and wait lines\<close>

lemma sublist_trans: "sublist a b \<Longrightarrow> sublist b c \<Longrightarrow> sublist a c"
proof -
  assume "sublist a b" "sublist b c"
  then obtain p s p' s' where "b = p @ a @ s" "c = p' @ b @ s'"
    by (auto simp: sublist_def)
  then have "c = (p' @ p) @ a @ (s @ s')" by simp
  then show ?thesis unfolding sublist_def by blast
qed

lemma sublist_append_Cons_notin:
  assumes "c \<notin> set r"
  shows "sublist r (A @ c # B) \<longleftrightarrow> sublist r A \<or> sublist r B"
proof
  assume "sublist r (A @ c # B)"
  then consider "sublist r A" | "sublist r (c # B)"
    | r1 r2 where "r = r1 @ r2" "suffix r1 A" "prefix r2 (c # B)" "r2 \<noteq> []"
    unfolding sublist_append by (metis append_Nil2 suffix_imp_sublist)
  then show "sublist r A \<or> sublist r B"
  proof cases
    case 1 then show ?thesis by simp
  next
    case 2
    then have "prefix r (c # B) \<or> sublist r B" by (simp add: sublist_Cons_right)
    moreover have "\<not> prefix r (c # B) \<or> r = []"
      using assms by (cases r) auto
    ultimately show ?thesis by auto
  next
    case 3
    then have "c \<in> set r2" by (cases r2) (auto simp: prefix_def)
    with 3 assms show ?thesis by simp
  qed
next
  assume "sublist r A \<or> sublist r B"
  then show "sublist r (A @ c # B)"
    by (metis sublist_append sublist_Cons_right)
qed

lemma split_from_sublist:
  "x \<in> set (split_from sep cur s) \<Longrightarrow> sublist x (rev cur @ s)"
proof (induction sep cur s rule: split_from.induct)
  case (1 sep cur)
  then show ?case by simp
next
  case (2 sep cur c cs)
  show ?case
  proof (cases "sep \<noteq> [] \<and> prefix sep (c # cs)")
    case True
    with 2 have "x = rev cur \<or> x \<in> set (split_from sep [] (drop (length sep) (c # cs)))"
      by auto
    then show ?thesis
    proof
      assume "x = rev cur" then show ?thesis by simp
    next
      assume "x \<in> set (split_from sep [] (drop (length sep) (c # cs)))"
      with 2 True have "sublist x (drop (length sep) (c # cs))" by auto
      then have "sublist x (c # cs)"
        using sublist_drop sublist_trans by blast
      then show ?thesis
        by (metis sublist_append)
    qed
  next
    case False
    with 2 have "sublist x (rev (c # cur) @ cs)" by auto
    then show ?thesis by simp
  qed
qed

lemma split_sublist: "x \<in> set (split s sep) \<Longrightarrow> sublist x s"
  using split_from_sublist [of x sep "[]" s] by (simp add: split_def)

lemma trim_sublist: "sublist (trim s) s"
proof -
  have "sublist (rev (dropWhile is_space (rev (dropWhile is_space s)))) (dropWhile is_space s)"
    by (metis sublist_dropWhile sublist_rev_left)
  then show ?thesis
    unfolding trim_def using sublist_dropWhile sublist_trans by blast
qed

lemma no_recognizer_sublist: "no_recognizer l \<Longrightarrow> sublist x l \<Longrightarrow> no_recognizer x"
  unfolding no_recognizer_def str_includes_def
  using sublist_trans by blast

lemma try_line_no_recognizer: "no_recognizer t \<Longrightarrow> try_line sem t w = (None, w)"
  by (simp add: no_recognizer_def recognizers_def try_line_def)

lemma execute_line_no_recognizer:
  assumes "no_recognizer l" and "piece \<in> set (split l newline)"
  shows "execute_line sem piece w = w"
proof -
  have "no_recognizer (trim piece)"
    using assms no_recognizer_sublist split_sublist trim_sublist by blast
  then show ?thesis
    by (simp add: execute_line_def Let_def try_line_no_recognizer)
qed

lemma prefix_replace_all:
  assumes "b \<notin> set r"
  shows "prefix r (replace_all c [b, x] s) \<Longrightarrow> prefix r s"
  using assms
proof (induction s arbitrary: r)
  case Nil
  then show ?case by (simp add: replace_all_def)
next
  case (Cons d s)
  show ?case
  proof (cases r)
    case Nil
    then show ?thesis by simp
  next
    case c2: (Cons e r')
    have rep: "replace_all c [b, x] (d # s) = (if d = c then [b, x] else [d]) @ replace_all c [b, x] s"
      by (simp add: replace_all_def)
    have "e \<noteq> b" using Cons.prems c2 by auto
    with Cons.prems(1) c2 have "d \<noteq> c \<and> e = d \<and> prefix r' (replace_all c [b, x] s)"
      unfolding rep by (cases "d = c") simp_all
    moreover have "b \<notin> set r'" using c2 Cons.prems by simp
    ultimately show ?thesis using Cons.IH [of r'] c2 by simp
  qed
qed


lemma replace_all_Cons:
  "replace_all c r (d # s) = (if d = c then r else [d]) @ replace_all c r s"
  by (simp add: replace_all_def)

lemma sublist_replace_all:
  assumes "r \<noteq> []" and "b \<notin> set r" and "hd r \<noteq> x"
  shows "sublist r (replace_all c [b, x] s) \<Longrightarrow> sublist r s"
proof (induction s)
  case Nil
  then show ?case by (simp add: replace_all_def)
next
  case (Cons d s)
  have step: "sublist r (replace_all c [b, x] s) \<Longrightarrow> sublist r (d # s)"
    using Cons.IH by (simp add: sublist_Cons_right)
  have nb: "\<not> prefix r (b # t)" for t using assms by (cases r) auto
  have nx: "\<not> prefix r (x # t)" for t using assms by (cases r) auto
  show ?case
  proof (cases "d = c")
    case True
    then have e: "replace_all c [b, x] (d # s) = b # x # replace_all c [b, x] s"
      by (simp add: replace_all_Cons)
    from Cons.prems have "sublist r (replace_all c [b, x] s)"
      unfolding e sublist_Cons_right [of r b] sublist_Cons_right [of r x] using nb nx by blast
    then show ?thesis by (rule step)
  next
    case False
    then have e: "replace_all c [b, x] (d # s) = d # replace_all c [b, x] s"
      by (simp add: replace_all_Cons)
    from Cons.prems have "prefix r (replace_all c [b, x] (d # s)) \<or>
        sublist r (replace_all c [b, x] s)"
      unfolding e sublist_Cons_right [of r d] .
    then show ?thesis
      using prefix_replace_all [OF assms(2)] step prefix_imp_sublist by blast
  qed
qed


lemma recognizer_facts:
  assumes "r \<in> set recognizers"
  shows "r \<noteq> []" "backslash \<notin> set r" "hd r = CHR ''a''" "quote \<notin> set r"
    "CHR '','' \<notin> set r" "CHR '')'' \<notin> set r"
proof -
  from assms consider "r = ''await page.goto(''" | "r = ''await page.click(''"
    | "r = ''await page.fill(''" | "r = ''await page.keyboard.press(''"
    unfolding recognizers_def by auto
  then have "r \<noteq> [] \<and> backslash \<notin> set r \<and> hd r = CHR ''a'' \<and> quote \<notin> set r \<and>
    CHR '','' \<notin> set r \<and> CHR '')'' \<notin> set r"
    by cases (simp_all add: backslash_def quote_def)
  then show "r \<noteq> []" "backslash \<notin> set r" "hd r = CHR ''a''" "quote \<notin> set r"
    "CHR '','' \<notin> set r" "CHR '')'' \<notin> set r" by simp_all
qed


lemma recognizer_escapeSelector:
  assumes "r \<in> set recognizers" and "sublist r (escapeSelector s)"
  shows "sublist r s"
proof -
  note f = recognizer_facts [OF assms(1)]
  have "hd r \<noteq> quote" using f(3) by (simp add: quote_def)
  from sublist_replace_all [OF f(1) f(2) this] assms(2) show ?thesis
    unfolding escapeSelector_def by blast
qed

lemma recognizer_escapeValue:
  assumes "r \<in> set recognizers" and "sublist r (escapeValue s)"
  shows "sublist r s"
proof -
  note f = recognizer_facts [OF assms(1)]
  have q: "hd r \<noteq> quote" using f(3) by (simp add: quote_def)
  have n: "hd r \<noteq> CHR ''n''" using f(3) by simp
  have c: "hd r \<noteq> CHR ''r''" using f(3) by simp
  from sublist_replace_all [OF f(1) f(2) c] assms(2)
  have "sublist r (replace_all (CHR 0x0A) [backslash, CHR ''n'']
          (replace_all quote [backslash, quote] s))"
    unfolding escapeValue_def by blast
  with sublist_replace_all [OF f(1) f(2) n]
  have "sublist r (replace_all quote [backslash, quote] s)" by blast
  with sublist_replace_all [OF f(1) f(2) q] show ?thesis by blast
qed


lemma template_no_recognizer:
  assumes "r \<in> set recognizers"
  shows "\<not> sublist r ''  await page.selectOption(''" "\<not> sublist r '', ''" "\<not> sublist r '');''"
    "\<not> sublist r ''  await page.waitForTimeout(''" "\<not> sublist r ''NaN''"
    "\<not> sublist r ''  await page.evaluate(() => window.scrollTo(''"
    "\<not> sublist r ''  await page.evaluate(() => window.scrollTo(0, 0));''"
    "\<not> sublist r '' ''" "\<not> sublist r '');''" "\<not> sublist r '';''"
proof -
  from assms consider "r = ''await page.goto(''" | "r = ''await page.click(''"
    | "r = ''await page.fill(''" | "r = ''await page.keyboard.press(''"
    unfolding recognizers_def by auto
  then have "\<not> sublist r ''  await page.selectOption('' \<and> \<not> sublist r '', '' \<and> \<not> sublist r '');'' \<and>
    \<not> sublist r ''  await page.waitForTimeout('' \<and> \<not> sublist r ''NaN'' \<and>
    \<not> sublist r ''  await page.evaluate(() => window.scrollTo('' \<and>
    \<not> sublist r ''  await page.evaluate(() => window.scrollTo(0, 0));'' \<and>
    \<not> sublist r '' '' \<and> \<not> sublist r '');'' \<and> \<not> sublist r '';''"
    by cases (simp_all add: sublist_Cons_right)
  then show "\<not> sublist r ''  await page.selectOption(''" "\<not> sublist r '', ''" "\<not> sublist r '');''"
    "\<not> sublist r ''  await page.waitForTimeout(''" "\<not> sublist r ''NaN''"
    "\<not> sublist r ''  await page.evaluate(() => window.scrollTo(''"
    "\<not> sublist r ''  await page.evaluate(() => window.scrollTo(0, 0));''"
    "\<not> sublist r '' ''" "\<not> sublist r '');''" "\<not> sublist r '';''"
    by simp_all
qed


lemma sublist_append_Cons_last:
  assumes "r = r' @ [c]" and "c \<notin> set r'" and "sublist r (A @ c # B)"
  shows "sublist r (A @ [c]) \<or> sublist r B"
proof -
  from assms(3) have "sublist r ((A @ [c]) @ B)" by simp
  then consider "sublist r (A @ [c])" | "sublist r B"
    | r1 r2 where "r = r1 @ r2" "suffix r1 (A @ [c])" "prefix r2 B"
    unfolding sublist_append by blast
  then show ?thesis
  proof cases
    case 3
    show ?thesis
    proof (cases "r1 = [] \<or> r2 = []")
      case True
      with 3 show ?thesis by auto
    next
      case False
      then obtain r1' where r1: "r1 = r1' @ [c]"
        using 3(2) by (metis snoc_suffix_snoc suffix_bot.extremum_uniqueI rev_exhaust)
      from False obtain r2' y where r2: "r2 = r2' @ [y]" by (metis rev_exhaust)
      from 3(1) assms(1) r1 r2 have "r' = r1' @ [c] @ r2'" by simp
      with assms(2) show ?thesis by simp
    qed
  qed auto
qed

lemma no_sublist_after_paren:
  assumes "r \<in> set recognizers" and "\<not> sublist r (A @ ''('')" and "\<not> sublist r B"
  shows "\<not> sublist r (A @ ''('' @ B)"
proof -
  from assms(1) consider "r = ''await page.goto(''" | "r = ''await page.click(''"
    | "r = ''await page.fill(''" | "r = ''await page.keyboard.press(''"
    unfolding recognizers_def by auto
  then obtain r' where "r = r' @ ''(''" "CHR ''('' \<notin> set r'"
  proof cases
    case 1 then show ?thesis using that [of "''await page.goto''"] by simp
  next
    case 2 then show ?thesis using that [of "''await page.click''"] by simp
  next
    case 3 then show ?thesis using that [of "''await page.fill''"] by simp
  next
    case 4 then show ?thesis using that [of "''await page.keyboard.press''"] by simp
  qed
  with sublist_append_Cons_last [of r r' "CHR ''(''" A B] assms(2,3) show ?thesis by auto
qed

lemma no_sublist_sep:
  assumes "c \<notin> set r" and "\<not> sublist r A" and "\<not> sublist r B"
  shows "\<not> sublist r (A @ c # B)"
  using assms by (simp add: sublist_append_Cons_notin)

lemma digit_char_not_a: "d < 10 \<Longrightarrow> digit_char d \<noteq> CHR ''a''"
proof
  assume d: "d < 10" and "digit_char d = CHR ''a''"
  then have "(of_char (char_of (48 + d)) :: nat) = of_char (CHR ''a'')"
    by (simp add: digit_char_def)
  then have "(48 + d) mod 256 = 97" by simp
  with d show False by simp
qed

lemma nat_digits_no_a: "CHR ''a'' \<notin> set (nat_digits n)"
proof (induction n rule: nat_digits.induct)
  case (1 n)
  show ?case
  proof (cases "n < 10")
    case True
    then show ?thesis using digit_char_not_a [of n] by (subst nat_digits.simps) auto
  next
    case False
    have "n mod 10 < 10" by simp
    from digit_char_not_a [OF this] 1 False show ?thesis
      by (subst nat_digits.simps) auto
  qed
qed

lemma number_string_no_recognizer:
  assumes "r \<in> set recognizers"
  shows "\<not> sublist r (number_string n)"
proof (cases n)
  case NaN
  then show ?thesis using template_no_recognizer(5) [OF assms] by simp
next
  case (Num i)
  have "CHR ''a'' \<notin> set (int_string i)"
    by (simp add: int_string_def nat_digits_no_a)
  moreover have "CHR ''a'' \<in> set r"
    using recognizer_facts(1,3) [OF assms] by (cases r) auto
  ultimately have "\<not> sublist r (int_string i)"
    using set_mono_sublist [of r "int_string i"] by blast
  then show ?thesis using Num by simp
qed

lemma wait_no_recognizer: "no_recognizer (generateWaitCommand a)"
proof -
  have "\<not> sublist r (generateWaitCommand a)" if r: "r \<in> set recognizers" for r
  proof -
    let ?n = "number_string (parseInt (or_default (act_value a) ''1000''))"
    have "\<not> sublist r (?n @ CHR '')'' # '';'')"
      using no_sublist_sep [OF recognizer_facts(6) [OF r] number_string_no_recognizer [OF r]
          template_no_recognizer(10) [OF r]] .
    with no_sublist_after_paren [OF r, of "''  await page.waitForTimeout''" "?n @ '');''"]
      template_no_recognizer(4) [OF r]
    show ?thesis by (simp add: generateWaitCommand_def)
  qed
  then show ?thesis by (simp add: no_recognizer_def str_includes_def)
qed

lemma select_no_recognizer:
  assumes "no_recognizer (getPreferredSelector (act_selector a))"
    and "no_recognizer (or_default (act_value a) [])"
  shows "no_recognizer (generateSelectCommand a)"
proof -
  have "\<not> sublist r (generateSelectCommand a)" if r: "r \<in> set recognizers" for r
  proof -
    let ?S = "escapeSelector (getPreferredSelector (act_selector a))"
    let ?V = "escapeValue (or_default (act_value a) [])"
    note q = recognizer_facts(4) [OF r]
    have s: "\<not> sublist r ?S"
      using assms(1) r recognizer_escapeSelector
      by (auto simp: no_recognizer_def str_includes_def)
    have v: "\<not> sublist r ?V"
      using assms(2) r recognizer_escapeValue
      by (auto simp: no_recognizer_def str_includes_def)
    have 1: "\<not> sublist r (?V @ quote # '');'')"
      using no_sublist_sep [OF q v template_no_recognizer(3) [OF r]] .
    have 2: "\<not> sublist r ('', '' @ quote # ?V @ quote # '');'')"
      using no_sublist_sep [OF q template_no_recognizer(2) [OF r] 1] .
    have 3: "\<not> sublist r (?S @ quote # '', '' @ quote # ?V @ quote # '');'')"
      using no_sublist_sep [OF q s 2] .
    have 4: "\<not> sublist r (''  await page.selectOption('' @ quote # ?S @ quote # '', '' @ quote # ?V @
        quote # '');'')"
      using no_sublist_sep [OF q template_no_recognizer(1) [OF r] 3] .
    then show ?thesis by (simp add: generateSelectCommand_def)
  qed
  then show ?thesis by (simp add: no_recognizer_def str_includes_def)
qed

lemma scroll_no_recognizer:
  assumes "\<forall>x y. scroll_coordinates jp a = Some (x, y) \<longrightarrow>
             no_recognizer (json_text x) \<and> no_recognizer (json_text y)"
  shows "no_recognizer (generateScrollCommand jp a)"
proof -
  have "\<not> sublist r (generateScrollCommand jp a)" if r: "r \<in> set recognizers" for r
  proof (cases "scroll_coordinates jp a")
    case None
    then show ?thesis using template_no_recognizer(7) [OF r]
      by (simp add: generateScrollCommand_def)
  next
    case (Some xy)
    obtain x y where xy: "xy = (x, y)" by (cases xy)
    with assms Some have x: "\<not> sublist r (json_text x)" and y: "\<not> sublist r (json_text y)"
      using r by (auto simp: no_recognizer_def str_includes_def)
    have 1: "\<not> sublist r (json_text y @ CHR '')'' # '');'')"
      using no_sublist_sep [OF recognizer_facts(6) [OF r] y template_no_recognizer(3) [OF r]] .
    have "\<not> prefix r (CHR '' '' # t)" for t
      using recognizer_facts(1,3) [OF r] by (cases r) auto
    with 1 have 2: "\<not> sublist r (CHR '' '' # json_text y @ CHR '')'' # '');'')"
      by (simp add: sublist_Cons_right)
    have 3: "\<not> sublist r (json_text x @ CHR '','' # CHR '' '' # json_text y @ CHR '')'' # '');'')"
      using no_sublist_sep [OF recognizer_facts(5) [OF r] x 2] .
    with no_sublist_after_paren [OF r, of "''  await page.evaluate(() => window.scrollTo''"
        "json_text x @ '', '' @ json_text y @ ''));''"]
      template_no_recognizer(6) [OF r]
    show ?thesis using Some xy by (simp add: generateScrollCommand_def)
  qed
  then show ?thesis by (simp add: no_recognizer_def str_includes_def)
qed

lemma execute_lines_no_recognizer:
  assumes "no_recognizer l"
  shows "execute_lines sem (split l newline) w = w"
proof -
  have "execute_lines sem ps w = w" if "\<forall>p \<in> set ps. sublist p l" for ps
    using that
  proof (induction ps)
    case Nil
    then show ?case by simp
  next
    case (Cons p ps)
    then have "no_recognizer (trim p)"
      using assms no_recognizer_sublist trim_sublist by (metis list.set_intros(1))
    then have "execute_line sem p w = w"
      by (simp add: execute_line_def Let_def try_line_no_recognizer)
    with Cons show ?case by simp
  qed
  then show ?thesis using split_sublist by blast
qed

text \<open>
  C9, as the claim states it, fails: the line written for a select action whose selector
  ends with \<open>await page.click(\<close> and whose value starts with \<open>)\<close> has the shape of a
  click command, and the replayer runs a click script for it.
\<close>

theorem hostile_select_counterexample:
  "act_type hostile_select = Select \<and>
   command_lines no_json hostile_select [] =
     [''  await page.selectOption('await page.click(', ')');''] \<and>
   execute_lines working_page (split (generateSelectCommand hostile_select) newline) ((), []) =
     ((), [Call (RunJs (ClickScript '', '')), Sleep 500])"
  by code_simp

text \<open>
  C9, amended. For a select, scroll or wait action, provided the texts copied into the line
  (the selector string and the option value of a select, the two coordinates of a scroll)
  contain none of the four texts by which the replayer tells a command, the line the
  generator writes contains none of them either, and replaying it changes nothing: no call
  is made on the tab. A wait action needs no proviso, and neither does a scroll whose
  coordinates are numbers.
\<close>

theorem unrecognized_commands_skipped:
  assumes "act_type a = Select \<or> act_type a = Scroll \<or> act_type a = Wait"
    and "\<forall>t \<in> set (embedded_texts jp a). no_recognizer t"
  shows "\<forall>l \<in> set (command_lines jp a rest).
           no_recognizer l \<and> execute_lines sem (split l newline) w = w"
proof -
  have "no_recognizer l" if "l \<in> set (command_lines jp a rest)" for l
    using assms(1)
  proof (elim disjE)
    assume t: "act_type a = Select"
    with that have "l = generateSelectCommand a" by (simp add: command_lines_def)
    with assms(2) t show ?thesis
      using select_no_recognizer by (simp add: embedded_texts_def)
  next
    assume t: "act_type a = Scroll"
    with that have "l = generateScrollCommand jp a" by (simp add: command_lines_def)
    with assms(2) t show ?thesis
      using scroll_no_recognizer [of jp a] by (auto simp: embedded_texts_def)
  next
    assume t: "act_type a = Wait"
    with that have "l = generateWaitCommand a" by (simp add: command_lines_def)
    then show ?thesis using wait_no_recognizer by simp
  qed
  then show ?thesis using execute_lines_no_recognizer by blast
qed


lemma numeric_coordinate_no_recognizer: "no_recognizer (json_text (JNum i))"
  using number_string_no_recognizer [of _ "Num i"]
  by (auto simp: no_recognizer_def str_includes_def)

theorem unrecognized_commands_skipped_witness:
  "embedded_texts no_json (example_action Select ''country'' (Some ''SE'')) = [''#country'', ''SE''] \<and>
   no_recognizer ''#country'' \<and> no_recognizer ''SE'' \<and>
   command_lines no_json (example_action Select ''country'' (Some ''SE'')) [] =
     [''  await page.selectOption('#country', 'SE');''] \<and>
   execute_lines working_page (split ''  await page.selectOption('#country', 'SE');'' newline)
     ((), []) = ((), [])"
proof -
  let ?a = "example_action Select ''country'' (Some ''SE'')"
  have t: "act_type ?a = Select \<or> act_type ?a = Scroll \<or> act_type ?a = Wait"
    by (simp add: example_action_def)
  have e: "embedded_texts no_json ?a = [''#country'', ''SE'']"
    by code_simp
  have n: "no_recognizer ''#country''" "no_recognizer ''SE''"
    by code_simp+
  have c: "command_lines no_json ?a [] = [''  await page.selectOption('#country', 'SE');'']"
    by code_simp
  have h: "\<forall>t \<in> set (embedded_texts no_json ?a). no_recognizer t"
    unfolding e using n by simp
  from unrecognized_commands_skipped [OF t h, of "[]" working_page "((), [])"] e n c
  show ?thesis by simp
qed

section \<open>Joining, splitting and counting\<close>

lemma prefix_append_Cons_notin:
  assumes "c \<notin> set pat"
  shows "prefix pat (a @ c # b) \<longleftrightarrow> prefix pat a"
proof
  assume "prefix pat (a @ c # b)"
  then have "prefix pat a \<or> (\<exists>us. pat = a @ us \<and> prefix us (c # b))"
    by (simp add: prefix_append)
  then show "prefix pat a"
  proof
    assume "\<exists>us. pat = a @ us \<and> prefix us (c # b)"
    then obtain us where us: "pat = a @ us" "prefix us (c # b)" by blast
    show ?thesis
    proof (cases us)
      case Nil
      with us show ?thesis by simp
    next
      case (Cons u us')
      with us have "u = c" by simp
      with Cons us assms show ?thesis by simp
    qed
  qed
next
  assume "prefix pat a" then show "prefix pat (a @ c # b)" by (simp add: prefix_def) auto
qed

lemma count_matches_sep:
  "c \<notin> set pat \<Longrightarrow>
   count_matches pat (a @ c # b) = count_matches pat a + count_matches pat b"
proof (induction pat a rule: count_matches.induct)
  case (1 pat)
  have "\<not> (pat \<noteq> [] \<and> prefix pat (c # b))"
  proof
    assume "pat \<noteq> [] \<and> prefix pat (c # b)"
    then obtain rest where "pat = c # rest" by (cases pat) auto
    then have "c \<in> set pat" by simp
    with 1 show False by simp
  qed
  then show ?case by auto
next
  case (2 pat x xs)
  note notin = "2.prems"
  show ?case
  proof (cases "pat \<noteq> [] \<and> prefix pat (x # xs)")
    case True
    then have p: "prefix pat ((x # xs) @ c # b)"
      using prefix_append_Cons_notin [OF notin, of "x # xs" b] by simp
    from True have "length pat \<le> length (x # xs)" using prefix_length_le by blast
    then have "length pat - length (x # xs) = 0" by simp
    then have d: "drop (length pat) ((x # xs) @ c # b) = drop (length pat) (x # xs) @ c # b"
      unfolding drop_append by (simp only: drop_0)
    have "count_matches pat (drop (length pat) (x # xs) @ c # b) =
        count_matches pat (drop (length pat) (x # xs)) + count_matches pat b"
      using 2(1) True notin by blast
    with True p d show ?thesis by auto
  next
    case False
    then have n: "\<not> (pat \<noteq> [] \<and> prefix pat ((x # xs) @ c # b))"
      using prefix_append_Cons_notin [OF notin, of "x # xs" b] by simp
    have "count_matches pat (xs @ c # b) = count_matches pat xs + count_matches pat b"
      using 2(2) False notin by blast
    with False n show ?thesis by auto
  qed
qed

lemma count_matches_join:
  assumes "CHR 0x0A \<notin> set pat"
  shows "count_matches pat (join ls newline) = sum_list (map (count_matches pat) ls)"
proof (induction ls newline rule: join.induct)
  case 1
  then show ?case by simp
next
  case (2 x)
  then show ?case by simp
next
  case (3 x y ys)
  have "count_matches pat (x @ CHR 0x0A # join (y # ys) newline) =
      count_matches pat x + count_matches pat (join (y # ys) newline)"
    by (rule count_matches_sep [OF assms])
  with 3 show ?case by (simp add: newline_def)
qed

lemma count_matches_none: "\<not> sublist pat s \<Longrightarrow> count_matches pat s = 0"
proof (induction pat s rule: count_matches.induct)
  case (1 pat)
  then show ?case by simp
next
  case (2 pat c cs)
  then have "\<not> prefix pat (c # cs)" "\<not> sublist pat cs"
    by (auto simp: sublist_Cons_right)
  with 2 show ?case by simp
qed

lemma split_from_char:
  "split_from [c] cur (a @ c # b) = split_from [c] cur a @ split_from [c] [] b"
  by (induction a arbitrary: cur) auto

lemma split_from_absent: "\<not> sublist sep s \<Longrightarrow> split_from sep cur s = [rev cur @ s]"
proof (induction s arbitrary: cur)
  case Nil
  then show ?case by simp
next
  case (Cons x xs)
  then have "\<not> prefix sep (x # xs)" "\<not> sublist sep xs"
    by (auto simp: sublist_Cons_right)
  with Cons.IH [of "x # cur"] show ?case by simp
qed

lemma split_join:
  assumes "ls \<noteq> []"
  shows "split (join ls newline) newline = concat (map (\<lambda>l. split l newline) ls)"
  using assms
proof (induction ls newline rule: join.induct)
  case 1
  then show ?case by simp
next
  case (2 x)
  then show ?case by simp
next
  case (3 x y ys)
  have "split (x @ CHR 0x0A # join (y # ys) newline) newline =
      split x newline @ split (join (y # ys) newline) newline"
    unfolding split_def newline_def by (rule split_from_char)
  with 3 show ?case by (simp add: newline_def)
qed

lemma split_single_line: "CHR 0x0A \<notin> set l \<Longrightarrow> split l newline = [l]"
proof -
  assume "CHR 0x0A \<notin> set l"
  then have "\<not> sublist newline l"
    using set_mono_sublist [of newline l] by (auto simp: newline_def)
  then show ?thesis by (simp add: split_def split_from_absent)
qed

section \<open>Markers in the generated lines\<close>

lemma markers_ok: "list_all marker_ok markers"
  by code_simp

lemma marker_facts:
  assumes "m \<in> set markers"
  shows "m \<noteq> []" "hd m = CHR ''/''" "quote \<notin> set m" "dquote \<notin> set m" "CHR '','' \<notin> set m"
    "CHR ''('' \<notin> set m" "CHR '')'' \<notin> set m" "backslash \<notin> set m" "CHR 0x0A \<notin> set m"
proof -
  have "marker_ok m" using markers_ok assms by (simp add: list_all_iff)
  then show "m \<noteq> []" "hd m = CHR ''/''" "quote \<notin> set m" "dquote \<notin> set m" "CHR '','' \<notin> set m"
    "CHR ''('' \<notin> set m" "CHR '')'' \<notin> set m" "backslash \<notin> set m" "CHR 0x0A \<notin> set m"
    unfolding marker_ok_def by blast+
qed

lemma pieces_clean: "list_all (\<lambda>m. list_all (\<lambda>p. \<not> sublist m p) fixed_pieces) markers"
  by code_simp

lemma marker_pieces:
  assumes "m \<in> set markers"
  shows "\<not> sublist m ''import { test, expect } from '@playwright/test';''"
    "\<not> sublist m []"
    "\<not> sublist m ''test(''"
    "\<not> sublist m '', async ({ page }) => {''"
    "\<not> sublist m ''  // Navigate to starting URL''"
    "\<not> sublist m ''  await page.goto(''"
    "\<not> sublist m '');''"
    "\<not> sublist m ''});''"
    "\<not> sublist m ''  await page.click(''"
    "\<not> sublist m ''); // ''"
    "\<not> sublist m ''  await page.fill(''"
    "\<not> sublist m '', ''"
    "\<not> sublist m ''  await page.keyboard.press(''"
    "\<not> sublist m ''Enter''"
    "\<not> sublist m ''); // May trigger form submission''"
    "\<not> sublist m ''  await page.selectOption(''"
    "\<not> sublist m ''  await page.evaluate(() => window.scrollTo''"
    "\<not> sublist m ''  await page.evaluate(() => window.scrollTo(0, 0));''"
    "\<not> sublist m ''));''"
    "\<not> sublist m ''  await page.waitForTimeout''"
    "\<not> sublist m ''NaN''"
    "\<not> sublist m '';''"
proof -
  have "list_all (\<lambda>p. \<not> sublist m p) fixed_pieces"
    using pieces_clean assms by (simp add: list_all_iff)
  then show "\<not> sublist m ''import { test, expect } from '@playwright/test';''"
    "\<not> sublist m []"
    "\<not> sublist m ''test(''"
    "\<not> sublist m '', async ({ page }) => {''"
    "\<not> sublist m ''  // Navigate to starting URL''"
    "\<not> sublist m ''  await page.goto(''"
    "\<not> sublist m '');''"
    "\<not> sublist m ''});''"
    "\<not> sublist m ''  await page.click(''"
    "\<not> sublist m ''); // ''"
    "\<not> sublist m ''  await page.fill(''"
    "\<not> sublist m '', ''"
    "\<not> sublist m ''  await page.keyboard.press(''"
    "\<not> sublist m ''Enter''"
    "\<not> sublist m ''); // May trigger form submission''"
    "\<not> sublist m ''  await page.selectOption(''"
    "\<not> sublist m ''  await page.evaluate(() => window.scrollTo''"
    "\<not> sublist m ''  await page.evaluate(() => window.scrollTo(0, 0));''"
    "\<not> sublist m ''));''"
    "\<not> sublist m ''  await page.waitForTimeout''"
    "\<not> sublist m ''NaN''"
    "\<not> sublist m '';''"
    unfolding fixed_pieces_def list.pred_inject by blast+
qed

lemma no_start_append:
  assumes "no_start m T" and "\<not> sublist m t"
  shows "\<not> sublist m (T @ t)"
  using assms
proof (induction T)
  case Nil
  then show ?case by simp
next
  case (Cons c cs)
  have "\<not> prefix m ((c # cs) @ t)"
  proof
    assume "prefix m ((c # cs) @ t)"
    then have "prefix m (c # cs) \<or> (\<exists>us. m = (c # cs) @ us \<and> prefix us t)"
      unfolding prefix_append by blast
    then have "prefix m (c # cs) \<or> prefix (c # cs) m" by auto
    with Cons.prems(1) show False by simp
  qed
  moreover have "\<not> sublist m (cs @ t)" using Cons by simp
  ultimately show ?case by (simp add: sublist_Cons_right)
qed

lemma prefixes_clean:
  "list_all (\<lambda>m. no_start m ''  // Page navigated to: '' \<and> no_start m '' '' \<and>
      (m = ''// Recording ID:'' \<or> no_start m ''// Recording ID: '') \<and>
      (m = ''// Created:'' \<or> no_start m ''// Created: '') \<and>
      (m = ''// Description:'' \<or> no_start m ''// Description: '') \<and>
      (m = ''// MANUAL STEP:'' \<or> no_start m ''  // MANUAL STEP: '')) markers"
  by code_simp

lemma marker_after_prefix:
  assumes "m \<in> set markers" and "\<not> sublist m t"
  shows "\<not> sublist m (''  // Page navigated to: '' @ t)"
    "m \<noteq> ''// Recording ID:'' \<Longrightarrow> \<not> sublist m (''// Recording ID: '' @ t)"
    "m \<noteq> ''// Created:'' \<Longrightarrow> \<not> sublist m (''// Created: '' @ t)"
    "m \<noteq> ''// Description:'' \<Longrightarrow> \<not> sublist m (''// Description: '' @ t)"
    "m \<noteq> ''// MANUAL STEP:'' \<Longrightarrow> \<not> sublist m (''  // MANUAL STEP: '' @ t)"
    "\<not> sublist m ('' '' @ t)"
proof -
  have p: "no_start m ''  // Page navigated to: '' \<and> no_start m '' '' \<and>
      (m = ''// Recording ID:'' \<or> no_start m ''// Recording ID: '') \<and>
      (m = ''// Created:'' \<or> no_start m ''// Created: '') \<and>
      (m = ''// Description:'' \<or> no_start m ''// Description: '') \<and>
      (m = ''// MANUAL STEP:'' \<or> no_start m ''  // MANUAL STEP: '')"
    using prefixes_clean assms(1) unfolding list_all_iff by blast
  show "\<not> sublist m (''  // Page navigated to: '' @ t)"
    using p no_start_append [OF _ assms(2)] by blast
  show "\<not> sublist m ('' '' @ t)"
    using p no_start_append [OF _ assms(2)] by blast
  show "m \<noteq> ''// Recording ID:'' \<Longrightarrow> \<not> sublist m (''// Recording ID: '' @ t)"
    using p no_start_append [OF _ assms(2)] by blast
  show "m \<noteq> ''// Created:'' \<Longrightarrow> \<not> sublist m (''// Created: '' @ t)"
    using p no_start_append [OF _ assms(2)] by blast
  show "m \<noteq> ''// Description:'' \<Longrightarrow> \<not> sublist m (''// Description: '' @ t)"
    using p no_start_append [OF _ assms(2)] by blast
  show "m \<noteq> ''// MANUAL STEP:'' \<Longrightarrow> \<not> sublist m (''  // MANUAL STEP: '' @ t)"
    using p no_start_append [OF _ assms(2)] by blast
qed

lemma digit_char_is_digit: "d < 10 \<Longrightarrow> is_digit (digit_char d)"
  by (simp add: is_digit_def digit_char_def)

lemma nat_digits_is_digit: "c \<in> set (nat_digits n) \<Longrightarrow> is_digit c"
proof (induction n rule: nat_digits.induct)
  case (1 n)
  show ?case
  proof (cases "n < 10")
    case True
    with 1(2) have "c = digit_char n" by (subst (asm) nat_digits.simps) simp
    with True show ?thesis by (simp add: digit_char_is_digit)
  next
    case False
    with 1(2) have "c \<in> set (nat_digits (n div 10)) \<or> c = digit_char (n mod 10)"
      by (subst (asm) nat_digits.simps) auto
    then show ?thesis using 1(1) False digit_char_is_digit [of "n mod 10"] by auto
  qed
qed

lemma slash_not_in_number: "CHR ''/'' \<notin> set (number_string n)"
proof (cases n)
  case NaN
  then show ?thesis by simp
next
  case (Num i)
  have "\<not> is_digit (CHR ''/'')" by (simp add: is_digit_def)
  then have "CHR ''/'' \<notin> set (nat_digits k)" for k using nat_digits_is_digit by blast
  then show ?thesis using Num by (simp add: int_string_def)
qed

lemma marker_needs_slash:
  assumes "m \<in> set markers" and "CHR ''/'' \<notin> set t"
  shows "\<not> sublist m t"
proof
  assume "sublist m t"
  then have "set m \<subseteq> set t" by (rule set_mono_sublist)
  moreover have "CHR ''/'' \<in> set m"
    using marker_facts(1,2) [OF assms(1)] by (cases m) auto
  ultimately show False using assms(2) by blast
qed

lemma marker_escapeSelector:
  assumes "m \<in> set markers" and "\<not> sublist m s"
  shows "\<not> sublist m (escapeSelector s)"
proof -
  note f = marker_facts [OF assms(1)]
  have "hd m \<noteq> quote" using f(2) by (simp add: quote_def)
  from sublist_replace_all [OF f(1) f(8) this] assms(2) show ?thesis
    unfolding escapeSelector_def by blast
qed

lemma marker_escapeValue:
  assumes "m \<in> set markers" and "\<not> sublist m s"
  shows "\<not> sublist m (escapeValue s)"
proof -
  note f = marker_facts [OF assms(1)]
  have q: "hd m \<noteq> quote" using f(2) by (simp add: quote_def)
  have n: "hd m \<noteq> CHR ''n''" using f(2) by simp
  have c: "hd m \<noteq> CHR ''r''" using f(2) by simp
  have "\<not> sublist m (replace_all quote [backslash, quote] s)"
    using sublist_replace_all [OF f(1) f(8) q] assms(2) by blast
  then have "\<not> sublist m (replace_all (CHR 0x0A) [backslash, CHR ''n'']
      (replace_all quote [backslash, quote] s))"
    using sublist_replace_all [OF f(1) f(8) n] by blast
  then show ?thesis
    unfolding escapeValue_def using sublist_replace_all [OF f(1) f(8) c] by blast
qed

lemma marker_quoted:
  assumes "m \<in> set markers" and "\<not> sublist m A" and "\<not> sublist m t" and "\<not> sublist m B"
  shows "\<not> sublist m (A @ quote # t @ quote # B)"
  using no_sublist_sep [OF marker_facts(3) [OF assms(1)] assms(2)
      no_sublist_sep [OF marker_facts(3) [OF assms(1)] assms(3) assms(4)]] .

lemma marker_text_comment:
  assumes "m \<in> set markers" and "free_of m (selector_texts selector)"
  shows "\<not> sublist m ('');'' @ text_comment selector)"
proof (cases "text_comment selector = []")
  case True
  then show ?thesis using marker_pieces(7) [OF assms(1)] by simp
next
  case False
  then obtain sel where s: "selector = Some sel" "truthy (sel_text sel)"
    "text_comment selector = '' // '' @ [dquote] @ the (sel_text sel) @ [dquote]"
    by (auto simp: text_comment_def split: option.splits if_splits)
  then have t: "\<not> sublist m (the (sel_text sel))"
    using assms(2) by (simp add: free_of_def selector_texts_def str_includes_def)
  have "\<not> sublist m (''); // '' @ dquote # the (sel_text sel) @ dquote # [])"
    using no_sublist_sep [OF marker_facts(4) [OF assms(1)] marker_pieces(10) [OF assms(1)]
        no_sublist_sep [OF marker_facts(4) [OF assms(1)] t marker_pieces(2) [OF assms(1)]]] .
  with s(3) show ?thesis by simp
qed

lemma marker_click:
  assumes "m \<in> set markers" and "free_of m (action_texts jp a)" and "act_type a = Click"
  shows "\<not> sublist m (generateClickCommand a)"
proof -
  from assms(2,3) have s: "\<not> sublist m (getPreferredSelector (act_selector a))"
    and t: "free_of m (selector_texts (act_selector a))"
    by (simp_all add: free_of_def action_texts_def str_includes_def)
  have "\<not> sublist m (''  await page.click('' @ quote #
      escapeSelector (getPreferredSelector (act_selector a)) @ quote #
      ('');'' @ text_comment (act_selector a)))"
    using marker_quoted [OF assms(1) marker_pieces(9) [OF assms(1)]
        marker_escapeSelector [OF assms(1) s] marker_text_comment [OF assms(1) t]] .
  then show ?thesis by (simp add: generateClickCommand_def)
qed

lemma marker_fill:
  assumes "m \<in> set markers" and "free_of m (action_texts jp a)" and "act_type a = Input"
  shows "\<not> sublist m (run_fill [a])"
proof -
  from assms(2,3) have s: "\<not> sublist m (getSelectorString (act_selector a))"
    and v: "\<not> sublist m (or_default (act_value a) [])"
    and t: "free_of m (selector_texts (act_selector a))"
    by (simp_all add: free_of_def action_texts_def str_includes_def)
  have 1: "\<not> sublist m ('', '' @ quote # escapeValue (or_default (act_value a) []) @ quote #
      ('');'' @ text_comment (act_selector a)))"
    using marker_quoted [OF assms(1) marker_pieces(12) [OF assms(1)]
        marker_escapeValue [OF assms(1) v] marker_text_comment [OF assms(1) t]] .
  have "\<not> sublist m (''  await page.fill('' @ quote #
      escapeSelector (getSelectorString (act_selector a)) @ quote #
      ('', '' @ quote # escapeValue (or_default (act_value a) []) @ quote #
      ('');'' @ text_comment (act_selector a))))"
    using marker_quoted [OF assms(1) marker_pieces(11) [OF assms(1)]
        marker_escapeSelector [OF assms(1) s] 1] .
  then show ?thesis by (simp add: run_fill_def generateInputCommand_def)
qed

lemma marker_keypress:
  assumes "m \<in> set markers" and "free_of m (action_texts jp a)" and "act_type a = Keypress"
  shows "\<not> sublist m (generateKeypressCommand jp a)"
proof (cases "keypress_key jp a")
  case None
  have "\<not> sublist m (''  await page.keyboard.press('' @ quote # ''Enter'' @ quote # '');'')"
    using marker_quoted [OF assms(1) marker_pieces(13) [OF assms(1)]
        marker_pieces(14) [OF assms(1)] marker_pieces(7) [OF assms(1)]] .
  with None show ?thesis by (simp add: generateKeypressCommand_def)
next
  case (Some k)
  with assms(2,3) have k: "\<not> sublist m (json_text k)"
    by (simp add: free_of_def action_texts_def str_includes_def)
  have 1: "\<not> sublist m (''  await page.keyboard.press('' @ quote # json_text k @ quote # '');'')"
    using marker_quoted [OF assms(1) marker_pieces(13) [OF assms(1)] k
        marker_pieces(7) [OF assms(1)]] .
  have 2: "\<not> sublist m (''  await page.keyboard.press('' @ quote # json_text k @ quote #
      ''); // May trigger form submission'')"
    using marker_quoted [OF assms(1) marker_pieces(13) [OF assms(1)] k
        marker_pieces(15) [OF assms(1)]] .
  show ?thesis
  proof (cases "k = JStr ''Enter''")
    case True
    with 2 Some show ?thesis by (simp add: generateKeypressCommand_def)
  next
    case False
    with 1 Some show ?thesis by (simp add: generateKeypressCommand_def)
  qed
qed

lemma marker_select:
  assumes "m \<in> set markers" and "free_of m (action_texts jp a)" and "act_type a = Select"
  shows "\<not> sublist m (generateSelectCommand a)"
proof -
  from assms(2,3) have s: "\<not> sublist m (getPreferredSelector (act_selector a))"
    and v: "\<not> sublist m (or_default (act_value a) [])"
    by (simp_all add: free_of_def action_texts_def str_includes_def)
  have 1: "\<not> sublist m ('', '' @ quote # escapeValue (or_default (act_value a) []) @ quote # '');'')"
    using marker_quoted [OF assms(1) marker_pieces(12) [OF assms(1)]
        marker_escapeValue [OF assms(1) v] marker_pieces(7) [OF assms(1)]] .
  have "\<not> sublist m (''  await page.selectOption('' @ quote #
      escapeSelector (getPreferredSelector (act_selector a)) @ quote #
      ('', '' @ quote # escapeValue (or_default (act_value a) []) @ quote # '');''))"
    using marker_quoted [OF assms(1) marker_pieces(16) [OF assms(1)]
        marker_escapeSelector [OF assms(1) s] 1] .
  then show ?thesis by (simp add: generateSelectCommand_def)
qed

lemma marker_scroll:
  assumes "m \<in> set markers" and "free_of m (action_texts jp a)" and "act_type a = Scroll"
  shows "\<not> sublist m (generateScrollCommand jp a)"
proof (cases "scroll_coordinates jp a")
  case None
  then show ?thesis using marker_pieces(18) [OF assms(1)]
    by (simp add: generateScrollCommand_def)
next
  case (Some xy)
  obtain x y where xy: "xy = (x, y)" by (cases xy)
  with Some assms(2,3) have x: "\<not> sublist m (json_text x)" and y: "\<not> sublist m (json_text y)"
    by (simp_all add: free_of_def action_texts_def str_includes_def)
  note f = marker_facts [OF assms(1)]
  have 1: "\<not> sublist m (json_text y @ CHR '')'' # '');'')"
    using no_sublist_sep [OF f(7) y marker_pieces(7) [OF assms(1)]] .
  have 2: "\<not> sublist m ('' '' @ json_text y @ CHR '')'' # '');'')"
    using marker_after_prefix(6) [OF assms(1) 1] .
  have 3: "\<not> sublist m (json_text x @ CHR '','' # '' '' @ json_text y @ CHR '')'' # '');'')"
    using no_sublist_sep [OF f(5) x 2] .
  have "\<not> sublist m (''  await page.evaluate(() => window.scrollTo'' @ CHR ''('' #
      json_text x @ CHR '','' # '' '' @ json_text y @ CHR '')'' # '');'')"
    using no_sublist_sep [OF f(6) marker_pieces(17) [OF assms(1)] 3] .
  with Some xy show ?thesis by (simp add: generateScrollCommand_def)
qed

lemma marker_wait:
  assumes "m \<in> set markers"
  shows "\<not> sublist m (generateWaitCommand a)"
proof -
  let ?n = "number_string (parseInt (or_default (act_value a) ''1000''))"
  note f = marker_facts [OF assms]
  have n: "\<not> sublist m ?n"
    using marker_needs_slash [OF assms slash_not_in_number] .
  have 1: "\<not> sublist m (?n @ CHR '')'' # '';'')"
    using no_sublist_sep [OF f(7) n marker_pieces(22) [OF assms]] .
  have "\<not> sublist m (''  await page.waitForTimeout'' @ CHR ''('' # ?n @ CHR '')'' # '';'')"
    using no_sublist_sep [OF f(6) marker_pieces(20) [OF assms] 1] .
  then show ?thesis by (simp add: generateWaitCommand_def)
qed

lemma marker_manual:
  assumes "m \<in> set markers" and "free_of m (action_texts jp a)" and "act_type a = Manual_step"
    and "m \<noteq> manual_marker"
  shows "\<not> sublist m (generateManualStepComment a)"
proof -
  from assms(2,3) have "\<not> sublist m (or_default (act_description a) ''Complete this step manually'')"
    by (simp add: free_of_def action_texts_def str_includes_def)
  from marker_after_prefix(5) [OF assms(1) this] assms(4) show ?thesis
    by (simp add: generateManualStepComment_def manual_marker_def)
qed

lemma marker_navigated:
  assumes "m \<in> set markers" and "free_of m (action_texts jp a)"
  shows "\<not> sublist m (navigated_comment (act_url a))"
proof -
  from assms(2) have "\<not> sublist m (act_url a)"
    by (simp add: free_of_def action_texts_def str_includes_def)
  from marker_after_prefix(1) [OF assms(1) this] show ?thesis
    by (simp add: navigated_comment_def)
qed

text \<open>The lines of an action contain a marker only in the comment of a manual step.\<close>

lemma marker_command_lines:
  assumes "m \<in> set markers" and "free_of m (action_texts jp a)"
    and "act_type a = Manual_step \<longrightarrow> m \<noteq> manual_marker"
    and "l \<in> set (command_lines jp a rest)"
  shows "\<not> sublist m l"
proof (cases "act_type a")
  case Click
  with assms(4) marker_click [OF assms(1,2)] show ?thesis by (simp add: command_lines_def)
next
  case Input
  with assms(4) marker_fill [OF assms(1,2)] show ?thesis
    by (simp add: command_lines_def split: if_splits)
next
  case Select
  with assms(4) marker_select [OF assms(1,2)] show ?thesis by (simp add: command_lines_def)
next
  case Navigate
  with assms(4) show ?thesis by (simp add: command_lines_def)
next
  case Scroll
  with assms(4) marker_scroll [OF assms(1,2)] show ?thesis by (simp add: command_lines_def)
next
  case Wait
  with assms(4) marker_wait [OF assms(1)] show ?thesis by (simp add: command_lines_def)
next
  case Keypress
  with assms(4) marker_keypress [OF assms(1,2)] show ?thesis by (simp add: command_lines_def)
next
  case Manual_step
  with assms(3,4) marker_manual [OF assms(1,2)] show ?thesis by (simp add: command_lines_def)
qed

lemma generate_script:
  assumes "generate jp md acts = Inr script"
  obtains stamp where "toISOString (m_createdAt md) = Inr stamp"
    and "script = join (header_lines md stamp @ preamble_lines md @
                        action_lines jp (m_targetSite md) acts @ [''});'']) newline"
proof -
  from assms obtain ls where ls: "generate_lines jp md acts = Inr ls" "script = join ls newline"
    by (auto simp: generate_def split: sum.splits)
  then obtain stamp where s: "toISOString (m_createdAt md) = Inr stamp"
    by (auto simp: generate_lines_def split: sum.splits)
  let ?st = "\<lparr>lines = header_lines md stamp @ preamble_lines md, lastUrl = m_targetSite md,
               consolidatedInputs = Map.empty, lastInputSelector = None\<rparr>"
  have "pending_ok ?st acts" by (simp add: pending_ok_def)
  from process_actions_lines [OF this, of jp] obtain st' where
    "process_actions jp acts ?st = Inr st'"
    "lines st' = lines ?st @ action_lines jp (lastUrl ?st) acts" by blast
  with ls s have "ls = header_lines md stamp @ preamble_lines md @
      action_lines jp (m_targetSite md) acts @ [''});'']"
    by (simp add: generate_lines_def)
  with ls s that show ?thesis by blast
qed

lemma pad_chars: "c \<in> set (pad w n) \<Longrightarrow> is_digit c"
  using nat_digits_is_digit by (auto simp: pad_def is_digit_def)

lemma year_chars: "c \<in> set (year_string y) \<Longrightarrow> is_digit c \<or> c = CHR ''-'' \<or> c = CHR ''+''"
  using pad_chars by (auto simp: year_string_def split: if_splits)

lemma iso_chars:
  assumes "c \<in> set (iso_string t)"
  shows "is_digit c \<or> c \<in> set ''-+T:.Z''"
  using assms pad_chars year_chars unfolding iso_string_def Let_def by fastforce

lemma stamp_chars:
  assumes "toISOString t = Inr stamp" and "c \<in> set stamp"
  shows "is_digit c \<or> c \<in> set ''-+T:.Z''"
  using assms iso_chars by (cases t) (auto split: if_splits)

lemma stamp_no_slash: "toISOString t = Inr stamp \<Longrightarrow> CHR ''/'' \<notin> set stamp"
proof
  assume "toISOString t = Inr stamp" "CHR ''/'' \<in> set stamp"
  from stamp_chars [OF this] show False by (simp add: is_digit_def)
qed

text \<open>The lines before the actions contain a marker only in the three header comments.\<close>

lemma marker_preamble:
  assumes "m \<in> set markers" and "free_of m (metadata_texts md)"
    and "l \<in> set (preamble_lines md)"
  shows "\<not> sublist m l"
proof -
  from assms(2) have n: "\<not> sublist m (m_name md)"
    by (simp add: free_of_def metadata_texts_def str_includes_def)
  have 1: "\<not> sublist m (''test('' @ quote # m_name md @ quote # '', async ({ page }) => {'')"
    using marker_quoted [OF assms(1) marker_pieces(3) [OF assms(1)] n
        marker_pieces(4) [OF assms(1)]] .
  show ?thesis
  proof (cases "truthy (m_targetSite md)")
    case False
    with assms(3) 1 show ?thesis by (simp add: preamble_lines_def)
  next
    case True
    with assms(2) have "\<not> sublist m (the (m_targetSite md))"
      by (simp add: free_of_def metadata_texts_def str_includes_def)
    then have "\<not> sublist m (''  await page.goto('' @ quote # the (m_targetSite md) @ quote # '');'')"
      using marker_quoted [OF assms(1) marker_pieces(6) [OF assms(1)] _
          marker_pieces(7) [OF assms(1)]] by blast
    with True assms(3) 1 marker_pieces(2,5) [OF assms(1)] show ?thesis
      by (auto simp: preamble_lines_def)
  qed
qed

lemma manual_header:
  assumes "toISOString (m_createdAt md) = Inr stamp"
    and "free_of manual_marker (metadata_texts md)"
    and "l \<in> set (header_lines md stamp)"
  shows "\<not> sublist manual_marker l"
proof -
  have m: "manual_marker \<in> set markers" by (simp add: markers_def)
  have ne: "manual_marker \<noteq> ''// Recording ID:''" "manual_marker \<noteq> ''// Created:''"
    "manual_marker \<noteq> ''// Description:''" by (simp_all add: manual_marker_def)
  from assms(2) have i: "\<not> sublist manual_marker (m_id md)"
    by (simp add: free_of_def metadata_texts_def str_includes_def)
  have s: "\<not> sublist manual_marker stamp"
    using marker_needs_slash [OF m stamp_no_slash [OF assms(1)]] .
  have d: "\<not> sublist manual_marker (''// Description: '' @ the (m_description md))"
    if "truthy (m_description md)"
  proof -
    from that assms(2) have "\<not> sublist manual_marker (the (m_description md))"
      by (simp add: free_of_def metadata_texts_def str_includes_def)
    from marker_after_prefix(4) [OF m this ne(3)] show ?thesis .
  qed
  from assms(3) marker_pieces(1,2) [OF m] marker_after_prefix(2) [OF m i ne(1)]
    marker_after_prefix(3) [OF m s ne(2)] d
  show ?thesis by (auto simp: header_lines_def split: if_splits)
qed

lemma manual_line_count:
  assumes "\<not> sublist manual_marker d"
  shows "count_matches manual_marker (''  // MANUAL STEP: '' @ d) = 1"
proof -
  have "manual_marker \<in> set markers" by (simp add: markers_def)
  from marker_after_prefix(6) [OF this assms]
  have "\<not> sublist manual_marker (CHR '' '' # d)" by simp
  then have "count_matches manual_marker (CHR '' '' # d) = 0"
    by (rule count_matches_none)
  then show ?thesis by (simp add: manual_marker_def)
qed

lemma manual_action_lines:
  assumes "\<forall>a \<in> set acts. free_of manual_marker (action_texts jp a)"
  shows "sum_list (map (count_matches manual_marker) (action_lines jp lu acts)) =
         length (filter (\<lambda>a. act_type a = Manual_step) acts)"
  using assms
proof (induction acts arbitrary: lu)
  case Nil
  then show ?case by simp
next
  case (Cons a rest)
  have m: "manual_marker \<in> set markers" by (simp add: markers_def)
  from Cons.prems have f: "free_of manual_marker (action_texts jp a)" by simp
  have n: "count_matches manual_marker (navigated_comment (act_url a)) = 0"
    using marker_navigated [OF m f] by (rule count_matches_none)
  have c: "sum_list (map (count_matches manual_marker) (command_lines jp a rest)) =
      (if act_type a = Manual_step then 1 else 0)"
  proof (cases "act_type a = Manual_step")
    case True
    from f True have "\<not> sublist manual_marker
        (or_default (act_description a) ''Complete this step manually'')"
      by (simp add: free_of_def action_texts_def str_includes_def)
    from manual_line_count [OF this] True show ?thesis
      by (simp add: command_lines_def generateManualStepComment_def)
  next
    case False
    then have "\<forall>l \<in> set (command_lines jp a rest). count_matches manual_marker l = 0"
      using marker_command_lines [OF m f] count_matches_none by blast
    then have "sum_list (map (count_matches manual_marker) (command_lines jp a rest)) = 0"
      by (simp add: sum_list_eq_0_iff)
    with False show ?thesis by simp
  qed
  from Cons n c show ?case by simp
qed

section \<open>Parsing never fails\<close>

lemma split_from_nonempty: "split_from sep cur s \<noteq> []"
  by (induction sep cur s rule: split_from.induct) auto

lemma split_from_second:
  assumes "sublist m s" and "m \<noteq> []"
  shows "\<exists>x y ys. split_from m cur s = x # y # ys"
  using assms
proof (induction s arbitrary: cur)
  case Nil
  then show ?case by simp
next
  case (Cons c cs)
  show ?case
  proof (cases "prefix m (c # cs)")
    case True
    obtain y ys where "split_from m [] (drop (length m) (c # cs)) = y # ys"
      using split_from_nonempty by (meson neq_Nil_conv)
    with True Cons.prems(2) show ?thesis by simp
  next
    case False
    with Cons.prems have "sublist m cs" by (simp add: sublist_Cons_right)
    from Cons.IH [OF this Cons.prems(2), of "c # cur"] False show ?thesis by simp
  qed
qed

lemma after_marker_total:
  assumes "str_includes line m" and "m \<noteq> []"
  shows "\<exists>x. after_marker line m = Inr x"
proof -
  from split_from_second [OF _ assms(2), of line "[]"] assms(1)
  obtain x y ys where "split line m = x # y # ys"
    by (auto simp: str_includes_def split_def)
  then show ?thesis by (simp add: after_marker_def)
qed

lemma parse_line_total: "\<exists>v'. parse_line line v = Inr v'"
proof -
  have a: "\<exists>x. after_marker line m = Inr x" if "str_includes line m" "m \<noteq> []" for m
    using after_marker_total that by blast
  show ?thesis
    unfolding parse_line_def
    using a [of "''// Recording ID:''"] a [of "''// Created:''"] a [of "''// Description:''"]
    by (auto split: option.splits)
qed

lemma parse_lines_total: "\<exists>v'. parse_lines ls v = Inr v'"
proof (induction ls arbitrary: v)
  case Nil
  then show ?case by simp
next
  case (Cons l ls)
  from parse_line_total obtain v1 where "parse_line l v = Inr v1" by blast
  with Cons [of v1] show ?case by simp
qed

lemma parse_manualSteps:
  "\<exists>r. parsePlaywrightScript filename content = Inr r \<and>
       map_option manualSteps (metadata r) = Some (Some (count_matches manual_marker content))"
proof -
  let ?ident = "replace_first ''.spec.ts'' [] filename"
  from parse_lines_total obtain v where
    "parse_lines (split content newline)
       \<lparr>p_id = ?ident, p_name = ?ident, p_description = None, p_createdAt = Num 0,
        p_targetSite = None\<rparr> = Inr v" by blast
  then show ?thesis by (simp add: parsePlaywrightScript_def Let_def manual_marker_def)
qed

lemma generate_total:
  assumes "toISOString (m_createdAt md) = Inr stamp"
  shows "\<exists>script. generate jp md acts = Inr script"
proof -
  let ?st = "\<lparr>lines = header_lines md stamp @ preamble_lines md, lastUrl = m_targetSite md,
               consolidatedInputs = Map.empty, lastInputSelector = None\<rparr>"
  have "pending_ok ?st acts" by (simp add: pending_ok_def)
  from process_actions_lines [OF this, of jp] obtain st' where
    "process_actions jp acts ?st = Inr st'" by blast
  with assms show ?thesis by (simp add: generate_def generate_lines_def)
qed

section \<open>Manual steps counted from the script\<close>

text \<open>
  C8, as the claim states it, fails: a single manual step whose description quotes the
  marker is counted twice when the script is parsed.
\<close>

theorem manual_step_count_counterexample:
  "length (filter (\<lambda>a. act_type a = Manual_step)
      [manual_step ''as in // MANUAL STEP: above'']) = 1 \<and>
   (case reload no_json example_metadata [manual_step ''as in // MANUAL STEP: above''] of
      Inl e \<Rightarrow> None
    | Inr r \<Rightarrow> map_option manualSteps (metadata r)) = Some (Some 2)"
  by code_simp

text \<open>
  C8, amended. When none of the texts that the generator copies into the script (the id,
  name, description and target site of the metadata; the URL, selector, selector text,
  value, key, coordinates and description of the actions) contains the marker
  \<open>// MANUAL STEP:\<close>, parsing the generated script succeeds and counts exactly the
  manual-step actions of the list.
\<close>

theorem manual_step_count:
  assumes "generate jp md acts = Inr script"
    and "free_of manual_marker (metadata_texts md)"
    and "\<forall>a \<in> set acts. free_of manual_marker (action_texts jp a)"
  shows "\<exists>r. parsePlaywrightScript filename script = Inr r \<and>
             map_option manualSteps (metadata r) =
               Some (Some (length (filter (\<lambda>a. act_type a = Manual_step) acts)))"
proof -
  have m: "manual_marker \<in> set markers" by (simp add: markers_def)
  from generate_script [OF assms(1)] obtain stamp where
    s: "toISOString (m_createdAt md) = Inr stamp"
       "script = join (header_lines md stamp @ preamble_lines md @
                        action_lines jp (m_targetSite md) acts @ [''});'']) newline" by blast
  have h: "sum_list (map (count_matches manual_marker) (header_lines md stamp)) = 0"
    using manual_header [OF s(1) assms(2)] count_matches_none
    by (simp add: sum_list_eq_0_iff)
  have p: "sum_list (map (count_matches manual_marker) (preamble_lines md)) = 0"
    using marker_preamble [OF m assms(2)] count_matches_none
    by (simp add: sum_list_eq_0_iff)
  have e: "count_matches manual_marker ''});'' = 0"
    using marker_pieces(8) [OF m] by (rule count_matches_none)
  have "count_matches manual_marker script =
      sum_list (map (count_matches manual_marker)
        (header_lines md stamp @ preamble_lines md @
         action_lines jp (m_targetSite md) acts @ [''});'']))"
    unfolding s(2) using marker_facts(9) [OF m] by (rule count_matches_join)
  also have "\<dots> = length (filter (\<lambda>a. act_type a = Manual_step) acts)"
    using h p e manual_action_lines [OF assms(3)] by simp
  finally show ?thesis using parse_manualSteps [of filename script] by simp
qed

theorem manual_step_count_witness:
  "free_of manual_marker (metadata_texts example_metadata) \<and>
   list_all (\<lambda>a. free_of manual_marker (action_texts no_json a))
     (example_actions @ [manual_step ''scan badge'']) \<and>
   (\<exists>script r. generate no_json example_metadata (example_actions @ [manual_step ''scan badge'']) =
        Inr script \<and>
      parsePlaywrightScript ''x.spec.ts'' script = Inr r \<and>
      map_option manualSteps (metadata r) = Some (Some 1))"
proof -
  let ?acts = "example_actions @ [manual_step ''scan badge'']"
  have a: "free_of manual_marker (metadata_texts example_metadata)"
    by code_simp
  have b: "list_all (\<lambda>a. free_of manual_marker (action_texts no_json a)) ?acts"
    by code_simp
  have c: "length (filter (\<lambda>a. act_type a = Manual_step) ?acts) = 1"
    by code_simp
  have "toISOString (m_createdAt example_metadata) = Inr ''2025-11-17T00:55:07.065Z''"
    by code_simp
  from generate_total [OF this] obtain script where
    g: "generate no_json example_metadata ?acts = Inr script" by blast
  from b have b': "\<forall>a \<in> set ?acts. free_of manual_marker (action_texts no_json a)"
    by (simp only: list_all_iff)
  from manual_step_count [OF g a b', of "''x.spec.ts''"] c g a b show ?thesis by auto
qed

section \<open>Dates: writing and reading a time value\<close>

lemma div_succ:
  fixes a k :: int
  assumes "0 < k"
  shows "(a + 1) div k = a div k + (if (a + 1) mod k = 0 then 1 else 0)"
proof (cases "a mod k + 1 = k")
  case True
  have e: "a + 1 = k * (a div k + 1) + 0"
    using True by (simp add: algebra_simps) (metis add.commute mult_div_mod_eq add.assoc)
  have "(a + 1) div k = a div k + 1"
    using int_div_pos_eq [OF e] assms by simp
  moreover have "(a + 1) mod k = 0"
    using int_mod_pos_eq [OF e] assms by simp
  ultimately show ?thesis by simp
next
  case False
  have r: "0 \<le> a mod k" "a mod k < k" using assms by simp_all
  with False have lt: "a mod k + 1 < k" by simp
  have e: "a + 1 = k * (a div k) + (a mod k + 1)" by simp
  have "(a + 1) div k = a div k"
    using int_div_pos_eq [OF e] r lt by simp
  moreover have "(a + 1) mod k = a mod k + 1"
    using int_mod_pos_eq [OF e] r lt by simp
  ultimately show ?thesis using r by simp
qed


lemma mod_shift:
  fixes y :: int
  shows "(y - 1968) mod 4 = y mod 4" "(y - 1900) mod 100 = y mod 100" "(y - 1600) mod 400 = y mod 400"
proof -
  have "(y + 4 * (- 492)) mod 4 = y mod 4" by (rule mod_mult_self2)
  then show "(y - 1968) mod 4 = y mod 4" by simp
  have "(y + 100 * (- 19)) mod 100 = y mod 100" by (rule mod_mult_self2)
  then show "(y - 1900) mod 100 = y mod 100" by simp
  have "(y + 400 * (- 4)) mod 400 = y mod 400" by (rule mod_mult_self2)
  then show "(y - 1600) mod 400 = y mod 400" by simp
qed

lemma div_next:
  fixes y k c :: int
  assumes "0 < k" and "(c - 1) mod k = 0"
  shows "(y + 1 - c) div k = (y - c) div k + (if y mod k = 0 then 1 else 0)"
proof -
  have e: "y + 1 - c = (y - c) + 1" by linarith
  obtain j where j: "c - 1 = k * j" using assms(2) by (metis mod_eq_0_iff_dvd dvd_def)
  have "(y - c + 1) mod k = (y + k * (- j)) mod k"
  proof -
    have "y - c + 1 = y + k * (- j)" using j by (simp add: algebra_simps)
    then show ?thesis by (simp only:)
  qed
  also have "\<dots> = y mod k" by (rule mod_mult_self2)
  finally have m: "(y - c + 1) mod k = y mod k" .
  show ?thesis unfolding e using div_succ [OF assms(1), of "y - c"] m by (simp only:)
qed

lemma d1:
  fixes y :: int
  shows "y mod 400 = 0 \<Longrightarrow> y mod 100 = 0"
  using mod_mod_cancel [of 100 400 y] by simp
lemma d2:
  fixes y :: int
  shows "y mod 100 = 0 \<Longrightarrow> y mod 4 = 0"
  using mod_mod_cancel [of 4 100 y] by simp

lemma leap_sum:
  fixes y :: int
  shows "(if y mod 4 = 0 then 1 else 0) - (if y mod 100 = 0 then 1 else 0) +
         (if y mod 400 = 0 then 1 else (0::int)) = (if InLeapYear y then 1 else 0)"
proof (cases "y mod 400 = 0")
  case True
  then have "y mod 100 = 0" by (rule d1)
  then have "y mod 4 = 0" by (rule d2)
  with True \<open>y mod 100 = 0\<close> show ?thesis
    unfolding InLeapYear_def by (simp only: if_True if_False simp_thms; simp)
next
  case False
  show ?thesis
  proof (cases "y mod 100 = 0")
    case True
    then have "y mod 4 = 0" by (rule d2)
    with True False show ?thesis
      unfolding InLeapYear_def by (simp only: if_True if_False simp_thms; simp)
  next
    case f2: False
    show ?thesis
    proof (cases "y mod 4 = 0")
      case True
      with False f2 show ?thesis
        unfolding InLeapYear_def by (simp only: if_True if_False simp_thms; simp)
    next
      case f3: False
      with False f2 show ?thesis
        unfolding InLeapYear_def by (simp only: if_True if_False simp_thms; simp)
    qed
  qed
qed

lemma year_length:
  "DayFromYear (y + 1) = DayFromYear y + (if InLeapYear y then 366 else 365)"
proof -
  define A where "A = (y - 1969) div 4"
  define B where "B = (y - 1901) div 100"
  define C where "C = (y - 1601) div 400"
  define a :: int where "a = (if y mod 4 = 0 then 1 else 0)"
  define b :: int where "b = (if y mod 100 = 0 then 1 else 0)"
  define c :: int where "c = (if y mod 400 = 0 then 1 else 0)"
  have 1: "(y + 1 - 1969) div 4 = A + a"
    unfolding A_def a_def by (rule div_next) simp_all
  have 2: "(y + 1 - 1901) div 100 = B + b"
    unfolding B_def b_def by (rule div_next) simp_all
  have 3: "(y + 1 - 1601) div 400 = C + c"
    unfolding C_def c_def by (rule div_next) simp_all
  have l: "a - b + c = (if InLeapYear y then 1 else 0)"
    unfolding a_def b_def c_def by (rule leap_sum)
  have "DayFromYear (y + 1) = 365 * (y + 1 - 1970) + (A + a) - (B + b) + (C + c)"
    unfolding DayFromYear_def 1 2 3 ..
  moreover have "DayFromYear y = 365 * (y - 1970) + A - B + C"
    unfolding DayFromYear_def A_def B_def C_def ..
  ultimately have "DayFromYear (y + 1) = DayFromYear y + 365 + (a - b + c)" by (simp only: algebra_simps)
  then show ?thesis unfolding l by (simp split: if_splits)
qed

lemma time_of_day:
  fixes ms :: int
  assumes "0 \<le> ms" "ms < 86400000"
  shows "ms div 3600000 * 3600000 + ms div 60000 mod 60 * 60000 + ms div 1000 mod 60 * 1000 +
         ms mod 1000 = ms"
    and "0 \<le> ms div 3600000" and "ms div 3600000 \<le> 23"
proof -
  have b: "ms div 60000 = ms div 1000 div 60"
    using zdiv_zmult2_eq [of 60 ms 1000] by simp
  have c: "ms div 3600000 = ms div 60000 div 60"
    using zdiv_zmult2_eq [of 60 ms 60000] by simp
  have 1: "ms = 1000 * (ms div 1000) + ms mod 1000" by simp
  have 2: "ms div 1000 = 60 * (ms div 60000) + ms div 1000 mod 60" unfolding b by simp
  have 3: "ms div 60000 = 60 * (ms div 3600000) + ms div 60000 mod 60" unfolding c by simp
  from 1 2 3 show "ms div 3600000 * 3600000 + ms div 60000 mod 60 * 60000 +
      ms div 1000 mod 60 * 1000 + ms mod 1000 = ms" by linarith
  show "0 \<le> ms div 3600000" using assms by (simp add: pos_imp_zdiv_nonneg_iff)
  have "ms div 3600000 \<le> 86399999 div 3600000"
    using assms zdiv_mono1 [of ms 86399999 3600000] by simp
  then show "ms div 3600000 \<le> 23" by simp
qed

lemma DayFromYear_est:
  fixes d :: int
  defines "q \<equiv> (400 * d) div 146097"
  shows "DayFromYear (1970 + q - 1) \<le> d" "d < DayFromYear (1970 + q + 2)"
proof -
  have q: "146097 * q \<le> 400 * d" "400 * d < 146097 * q + 146097"
    unfolding q_def by (simp_all add: div_mult_mod_eq [symmetric] del: div_mult_mod_eq) 
  show "DayFromYear (1970 + q - 1) \<le> d"
    using q unfolding DayFromYear_def by simp
  show "d < DayFromYear (1970 + q + 2)"
    using q unfolding DayFromYear_def by simp
qed

lemma YearFromDay_bounds:
  "DayFromYear (YearFromDay d) \<le> d \<and> d < DayFromYear (YearFromDay d + 1)"
proof -
  define y0 where "y0 = 1970 + (400 * d) div 146097"
  from DayFromYear_est [of d]
  have e: "DayFromYear (y0 - 1) \<le> d" "d < DayFromYear (y0 + 1 + 1)"
    unfolding y0_def by (simp_all only: add.assoc one_add_one)
  have y: "YearFromDay d = (if d < DayFromYear y0 then y0 - 1
         else if DayFromYear (y0 + 1) \<le> d then y0 + 1 else y0)"
    unfolding YearFromDay_def y0_def Let_def ..
  show ?thesis
  proof (cases "d < DayFromYear y0")
    case True
    with e y show ?thesis by simp
  next
    case False
    show ?thesis
    proof (cases "DayFromYear (y0 + 1) \<le> d")
      case True
      with False e y show ?thesis by simp
    next
      case f: False
      with False y show ?thesis by simp
    qed
  qed
qed

lemma YearFromDay_range:
  assumes "\<bar>d\<bar> \<le> 100000000"
  shows "\<bar>YearFromDay d\<bar> \<le> 999999"
proof -
  define q where "q = (400 * d) div 146097"
  have "146097 * q \<le> 400 * d" "400 * d < 146097 * q + 146097"
    unfolding q_def by (simp_all add: div_mult_mod_eq [symmetric] del: div_mult_mod_eq)
  with assms have "\<bar>q\<bar> \<le> 300000" by linarith
  moreover have "YearFromDay d = 1970 + q - 1 \<or> YearFromDay d = 1970 + q + 1 \<or>
      YearFromDay d = 1970 + q"
    unfolding YearFromDay_def q_def Let_def by (simp only: if_distrib [of "\<lambda>x. x = _"]) metis
  ultimately show ?thesis by linarith
qed

lemma digit_char_value: "d < 10 \<Longrightarrow> (of_char (digit_char d) :: nat) - 48 = d"
  by (simp add: digit_char_def)

lemma digits_value_snoc:
  "digits_value (xs @ [c]) = 10 * digits_value xs + (of_char c - 48)"
  by (simp add: digits_value_def)

lemma digits_value_nat_digits: "digits_value (nat_digits n) = n"
proof (induction n rule: nat_digits.induct)
  case (1 n)
  show ?case
  proof (cases "n < 10")
    case True
    then have "nat_digits n = [digit_char n]" by (subst nat_digits.simps) simp
    with True show ?thesis by (simp add: digits_value_def digit_char_value)
  next
    case False
    then have e: "nat_digits n = nat_digits (n div 10) @ [digit_char (n mod 10)]"
      by (subst nat_digits.simps) simp
    have "digits_value (nat_digits n) = 10 * (n div 10) + n mod 10"
      unfolding e digits_value_snoc using 1 False by (simp add: digit_char_value)
    then show ?thesis by simp
  qed
qed

lemma digits_value_zeros: "digits_value (replicate k (CHR ''0'') @ xs) = digits_value xs"
proof -
  have "foldl (\<lambda>acc c. 10 * acc + (of_char c - 48)) (0::nat) (replicate k (CHR ''0'')) = 0"
    by (induction k) simp_all
  then show ?thesis by (simp add: digits_value_def)
qed

lemma length_nat_digits: "n < 10 ^ Suc w \<Longrightarrow> length (nat_digits n) \<le> Suc w"
proof (induction w arbitrary: n)
  case 0
  then have "nat_digits n = [digit_char n]" by (subst nat_digits.simps) simp
  then show ?case by simp
next
  case (Suc w)
  show ?case
  proof (cases "n < 10")
    case True
    then have "nat_digits n = [digit_char n]" by (subst nat_digits.simps) simp
    then show ?thesis by simp
  next
    case False
    then have e: "nat_digits n = nat_digits (n div 10) @ [digit_char (n mod 10)]"
      by (subst nat_digits.simps) simp
    from Suc.prems have "n div 10 < 10 ^ Suc w" by simp
    from Suc.IH [OF this] show ?thesis unfolding e by simp
  qed
qed

lemma pad_props:
  assumes "n < 10 ^ Suc w"
  shows "length (pad (Suc w) n) = Suc w" "list_all is_digit (pad (Suc w) n)"
    "digits_value (pad (Suc w) n) = n"
proof -
  from length_nat_digits [OF assms] show "length (pad (Suc w) n) = Suc w"
    by (simp add: pad_def)
  show "list_all is_digit (pad (Suc w) n)"
    using nat_digits_is_digit by (auto simp: pad_def list_all_iff is_digit_def)
  show "digits_value (pad (Suc w) n) = n"
    unfolding pad_def digits_value_zeros by (rule digits_value_nat_digits)
qed

lemma pad2:
  assumes "n < 100"
  obtains a b where "pad 2 n = [a, b]" "is_digit a" "is_digit b" "digits_value [a, b] = n"
proof -
  have n: "n < 10 ^ Suc 1" using assms by simp
  have s: "(2::nat) = Suc 1" by simp
  from pad_props [OF n] have p: "length (pad 2 n) = 2" "list_all is_digit (pad 2 n)"
    "digits_value (pad 2 n) = n" unfolding s by simp_all
  from p(1) obtain a b where "pad 2 n = [a, b]"
    by (auto simp: length_Suc_conv numeral_2_eq_2)
  with p that show ?thesis by simp
qed

lemma pad3:
  assumes "n < 1000"
  obtains a b c where "pad 3 n = [a, b, c]" "is_digit a" "is_digit b" "is_digit c"
    "digits_value [a, b, c] = n"
proof -
  have n: "n < 10 ^ Suc 2" using assms by simp
  have s: "(3::nat) = Suc 2" by simp
  from pad_props [OF n] have p: "length (pad 3 n) = 3" "list_all is_digit (pad 3 n)"
    "digits_value (pad 3 n) = n" unfolding s by simp_all
  from p(1) obtain a b c where "pad 3 n = [a, b, c]"
    by (auto simp: length_Suc_conv numeral_3_eq_3)
  with p that show ?thesis by simp
qed

lemma pad4:
  assumes "n < 10000"
  obtains a b c d where "pad 4 n = [a, b, c, d]" "is_digit a" "is_digit b" "is_digit c"
    "is_digit d" "digits_value [a, b, c, d] = n"
proof -
  have n: "n < 10 ^ Suc 3" using assms by simp
  have s: "(4::nat) = Suc 3" by simp
  from pad_props [OF n] have p: "length (pad 4 n) = Suc (Suc (Suc (Suc 0)))"
    "list_all is_digit (pad 4 n)" "digits_value (pad 4 n) = n" unfolding s by simp_all
  from p(1) obtain a b c d where "pad 4 n = [a, b, c, d]"
    by (auto simp: length_Suc_conv)
  with p that show ?thesis by simp
qed

lemma pad6:
  assumes "n < 1000000"
  obtains a b c d e f where "pad 6 n = [a, b, c, d, e, f]" "list_all is_digit [a, b, c, d, e, f]"
    "digits_value [a, b, c, d, e, f] = n"
proof -
  have n: "n < 10 ^ Suc 5" using assms by simp
  have s: "(6::nat) = Suc 5" by simp
  from pad_props [OF n] have p: "length (pad 6 n) = Suc (Suc (Suc (Suc (Suc (Suc 0)))))"
    "list_all is_digit (pad 6 n)" "digits_value (pad 6 n) = n" unfolding s by simp_all
  from p(1) obtain a b c d e f where "pad 6 n = [a, b, c, d, e, f]"
    by (auto simp: length_Suc_conv)
  with p that show ?thesis by simp
qed

lemma month_of_day:
  assumes "0 \<le> n" and "n < (if leap then 366 else 365)"
  shows "1 \<le> MonthFromDayInYear leap n \<and> MonthFromDayInYear leap n \<le> 12 \<and>
         days_before_month leap (MonthFromDayInYear leap n) \<le> n \<and>
         n < days_before_month leap (MonthFromDayInYear leap n + 1) \<and>
         days_before_month leap (MonthFromDayInYear leap n + 1) -
           days_before_month leap (MonthFromDayInYear leap n) \<le> 31"
  using assms unfolding MonthFromDayInYear_def days_before_month_def
  by (cases leap) (simp_all split: if_splits)

lemma digit_not_sign: "is_digit c \<Longrightarrow> c \<noteq> CHR ''+'' \<and> c \<noteq> CHR ''-''"
  by (auto simp: is_digit_def)

lemma parse_after_year_fields:
  assumes "is_digit m1" "is_digit m2" "is_digit d1" "is_digit d2" "is_digit h1" "is_digit h2"
    "is_digit i1" "is_digit i2" "is_digit s1" "is_digit s2" "is_digit l1" "is_digit l2" "is_digit l3"
    and "digits_value [m1, m2] = nat m" "digits_value [d1, d2] = nat dt"
    and "digits_value [h1, h2] = nat h" "digits_value [i1, i2] = nat mi"
    and "digits_value [s1, s2] = nat sec" "digits_value [l1, l2, l3] = nat ml"
    and "1 \<le> m" "m \<le> 12" "1 \<le> dt"
    and "dt \<le> days_before_month (InLeapYear y) (m + 1) - days_before_month (InLeapYear y) m"
    and "0 \<le> h" "h \<le> 23" "0 \<le> mi" "mi \<le> 59" "0 \<le> sec" "sec \<le> 59" "0 \<le> ml"
    and "\<bar>(DayFromYear y + days_before_month (InLeapYear y) m + dt - 1) * ms_per_day +
           h * 3600000 + mi * 60000 + sec * 1000 + ml\<bar> \<le> max_time"
  shows "parse_after_year y
           (CHR ''-'' # m1 # m2 # CHR ''-'' # d1 # d2 # CHR ''T'' # h1 # h2 # CHR '':'' # i1 # i2 #
            CHR '':'' # s1 # s2 # CHR ''.'' # l1 # l2 # l3 # ''Z'') =
         Num ((DayFromYear y + days_before_month (InLeapYear y) m + dt - 1) * ms_per_day +
              h * 3600000 + mi * 60000 + sec * 1000 + ml)"
  using assms unfolding parse_after_year_def Let_def by simp

text \<open>
  The text written for a time value has the year followed by the fixed-width fields of
  that time value, so reading it gives the time value back.
\<close>

lemma iso_string_shape:
  assumes "\<bar>t\<bar> \<le> max_time"
  obtains y rest where "iso_string t = year_string y @ rest" "parse_after_year y rest = Num t"
    "\<bar>y\<bar> \<le> 999999"
proof -
  define day where "day = t div ms_per_day"
  define ms where "ms = t mod ms_per_day"
  define y where "y = YearFromDay day"
  define n where "n = day - DayFromYear y"
  define m where "m = MonthFromDayInYear (InLeapYear y) n"
  define dt where "dt = n - days_before_month (InLeapYear y) m + 1"
  define h where "h = ms div 3600000"
  define mi where "mi = ms div 60000 mod 60"
  define sec where "sec = ms div 1000 mod 60"
  define ml where "ml = ms mod 1000"
  have ms: "0 \<le> ms" "ms < 86400000"
    unfolding ms_def ms_per_day_def by simp_all
  have t: "t = day * ms_per_day + ms"
    unfolding day_def ms_def by simp
  have day: "\<bar>day\<bar> \<le> 100000000"
  proof -
    have "- 100000000 \<le> day"
      using assms zdiv_mono1 [of "- 8640000000000000" t 86400000]
      unfolding day_def ms_per_day_def max_time_def by simp
    moreover have "day \<le> 100000000"
      using assms zdiv_mono1 [of t 8640000000000000 86400000]
      unfolding day_def ms_per_day_def max_time_def by simp
    ultimately show ?thesis by simp
  qed
  have yb: "DayFromYear y \<le> day" "day < DayFromYear (y + 1)"
    unfolding y_def using YearFromDay_bounds [of day] by simp_all
  have yr: "\<bar>y\<bar> \<le> 999999"
    unfolding y_def using YearFromDay_range [OF day] .
  have n: "0 \<le> n" "n < (if InLeapYear y then 366 else 365)"
    using yb year_length [of y] unfolding n_def by (simp_all split: if_splits)
  from month_of_day [OF n] have mo: "1 \<le> m" "m \<le> 12"
    "days_before_month (InLeapYear y) m \<le> n" "n < days_before_month (InLeapYear y) (m + 1)"
    "days_before_month (InLeapYear y) (m + 1) - days_before_month (InLeapYear y) m \<le> 31"
    unfolding m_def by simp_all
  have dt: "1 \<le> dt"
    "dt \<le> days_before_month (InLeapYear y) (m + 1) - days_before_month (InLeapYear y) m"
    "dt \<le> 31"
    using mo unfolding dt_def by simp_all
  note tod = time_of_day [OF ms, folded h_def mi_def sec_def ml_def]
  have r: "0 \<le> mi" "mi \<le> 59" "0 \<le> sec" "sec \<le> 59" "0 \<le> ml" "ml \<le> 999"
    unfolding mi_def sec_def ml_def by simp_all
  have total: "(DayFromYear y + days_before_month (InLeapYear y) m + dt - 1) * ms_per_day +
      h * 3600000 + mi * 60000 + sec * 1000 + ml = t"
  proof -
    have "DayFromYear y + days_before_month (InLeapYear y) m + dt - 1 = day"
      unfolding dt_def n_def by simp
    with tod(1) t show ?thesis by simp
  qed
  have lt_m: "nat m < 100" using mo by simp
  obtain m1 m2 where pm: "pad 2 (nat m) = [m1, m2]" "is_digit m1" "is_digit m2"
    "digits_value [m1, m2] = nat m"
    by (rule pad2 [OF lt_m])
  have lt_dt: "nat dt < 100" using dt by simp
  obtain d1 d2 where pd: "pad 2 (nat dt) = [d1, d2]" "is_digit d1" "is_digit d2"
    "digits_value [d1, d2] = nat dt"
    by (rule pad2 [OF lt_dt])
  have lt_h: "nat h < 100" using tod by simp
  obtain h1 h2 where ph: "pad 2 (nat h) = [h1, h2]" "is_digit h1" "is_digit h2"
    "digits_value [h1, h2] = nat h"
    by (rule pad2 [OF lt_h])
  have lt_mi: "nat mi < 100" using r by simp
  obtain i1 i2 where pi: "pad 2 (nat mi) = [i1, i2]" "is_digit i1" "is_digit i2"
    "digits_value [i1, i2] = nat mi"
    by (rule pad2 [OF lt_mi])
  have lt_sec: "nat sec < 100" using r by simp
  obtain s1 s2 where ps: "pad 2 (nat sec) = [s1, s2]" "is_digit s1" "is_digit s2"
    "digits_value [s1, s2] = nat sec"
    by (rule pad2 [OF lt_sec])
  have lt_ml: "nat ml < 1000" using r by simp
  obtain l1 l2 l3 where pl: "pad 3 (nat ml) = [l1, l2, l3]" "is_digit l1" "is_digit l2"
    "is_digit l3" "digits_value [l1, l2, l3] = nat ml"
    by (rule pad3 [OF lt_ml])
  define rest where "rest = CHR ''-'' # m1 # m2 # CHR ''-'' # d1 # d2 # CHR ''T'' # h1 # h2 #
      CHR '':'' # i1 # i2 # CHR '':'' # s1 # s2 # CHR ''.'' # l1 # l2 # l3 # ''Z''"
  have "iso_string t = year_string y @ ''-'' @ pad 2 (nat m) @ ''-'' @ pad 2 (nat dt) @ ''T'' @
         pad 2 (nat h) @ '':'' @ pad 2 (nat mi) @ '':'' @
         pad 2 (nat sec) @ ''.'' @ pad 3 (nat ml) @ ''Z''"
    by (simp only: iso_string_def Let_def day_def ms_def y_def n_def m_def dt_def h_def mi_def
        sec_def ml_def)
  then have iso: "iso_string t = year_string y @ rest"
    unfolding pm(1) pd(1) ph(1) pi(1) ps(1) pl(1) rest_def by simp
  have bound: "\<bar>(DayFromYear y + days_before_month (InLeapYear y) m + dt - 1) * ms_per_day +
      h * 3600000 + mi * 60000 + sec * 1000 + ml\<bar> \<le> max_time"
    unfolding total by (rule assms)
  have pr: "parse_after_year y rest = Num t"
    unfolding rest_def total [symmetric]
    by (rule parse_after_year_fields [OF pm(2,3) pd(2,3) ph(2,3) pi(2,3) ps(2,3) pl(2,3,4)
          pm(4) pd(4) ph(4) pi(4) ps(4) pl(5) mo(1,2) dt(1,2) tod(2,3) r(1,2,3,4,5) bound])
  from iso pr yr that show ?thesis by blast
qed

lemma date_parse_iso_string:
  assumes "\<bar>t\<bar> \<le> max_time"
  shows "date_parse (iso_string t) = Num t"
proof -
  from iso_string_shape [OF assms] obtain y rest where
    iso: "iso_string t = year_string y @ rest" and pr: "parse_after_year y rest = Num t"
    and yr: "\<bar>y\<bar> \<le> 999999" by blast
  show ?thesis
  proof (cases "0 \<le> y \<and> y \<le> 9999")
    case True
    then have lt_y: "nat y < 10000" by linarith
    obtain a b c d where py: "pad 4 (nat y) = [a, b, c, d]" "is_digit a" "is_digit b"
      "is_digit c" "is_digit d" "digits_value [a, b, c, d] = nat y"
      by (rule pad4 [OF lt_y])
    from True py have s: "iso_string t = a # b # c # d # rest"
      unfolding iso year_string_def by simp
    from py(2) have "a \<noteq> CHR ''+''" "a \<noteq> CHR ''-''"
      using digit_not_sign by blast+
    with py pr True show ?thesis
      unfolding s date_parse_def by simp
  next
    case False
    show ?thesis
    proof (cases "y < 0")
      case True
      with yr have lt_y: "nat (- y) < 1000000" by linarith
      obtain a b c d e f where py: "pad 6 (nat (- y)) = [a, b, c, d, e, f]"
        "list_all is_digit [a, b, c, d, e, f]" "digits_value [a, b, c, d, e, f] = nat (- y)"
        by (rule pad6 [OF lt_y])
      from True py have s: "iso_string t = CHR ''-'' # a # b # c # d # e # f # rest"
        unfolding iso year_string_def by simp
      from True have "nat (- y) \<noteq> 0" "- 1 * int (nat (- y)) = y" by simp_all
      with py pr show ?thesis
        unfolding s date_parse_def by simp
    next
      case f2: False
      with False have big: "9999 < y" by simp
      with yr have lt_y: "nat y < 1000000" by linarith
      obtain a b c d e f where py: "pad 6 (nat y) = [a, b, c, d, e, f]"
        "list_all is_digit [a, b, c, d, e, f]" "digits_value [a, b, c, d, e, f] = nat y"
        by (rule pad6 [OF lt_y])
      from big py have s: "iso_string t = CHR ''+'' # a # b # c # d # e # f # rest"
        unfolding iso year_string_def by simp
      from big have "int (nat y) = y" by simp
      with py pr show ?thesis
        unfolding s date_parse_def by simp
    qed
  qed
qed

section \<open>Generator: fill commands of the script\<close>





lemma single_stamp: "toISOString t = Inr stamp \<Longrightarrow> single_line stamp"
  unfolding single_line_def
proof
  assume "toISOString t = Inr stamp" "CHR 0x0A \<in> set stamp"
  from stamp_chars [OF this] show False by (simp add: is_digit_def)
qed









section \<open>The header read back from the script\<close>

lemma trim_space: "trim (CHR '' '' # s) = trim s"
  by (simp add: trim_def is_space_def)

lemma trim_no_space:
  assumes "\<forall>c \<in> set s. \<not> is_space c"
  shows "trim s = s"
proof -
  have d: "dropWhile is_space xs = xs" if "\<forall>c \<in> set xs. \<not> is_space c" for xs
    using that by (cases xs) auto
  from assms have "dropWhile is_space (rev s) = rev s" by (intro d) simp
  with d [OF assms] show ?thesis by (simp add: trim_def)
qed

lemma trim_stamp:
  assumes "toISOString t = Inr stamp"
  shows "trim stamp = stamp"
proof (rule trim_no_space, rule ballI)
  fix c assume "c \<in> set stamp"
  from stamp_chars [OF assms this] show "\<not> is_space c"
    by (auto simp: is_digit_def is_space_def)
qed

lemma split_prefix:
  assumes "m \<noteq> []" and "\<not> sublist m t"
  shows "split (m @ t) m = [[], t]"
proof -
  from assms(1) obtain c cs where m: "m = c # cs" by (cases m) auto
  have "split_from m [] (c # (cs @ t)) = [] # split_from m [] (drop (length m) (c # (cs @ t)))"
    using m by simp
  also have "drop (length m) (c # (cs @ t)) = t" using m by simp
  also have "split_from m [] t = [t]" using split_from_absent [OF assms(2), of "[]"] by simp
  finally show ?thesis using m by (simp add: split_def)
qed

lemma after_marker_prefix:
  assumes "m \<in> set markers" and "\<not> sublist m t"
  shows "after_marker (m @ CHR '' '' # t) m = Inr (trim t)"
proof -
  from marker_after_prefix(6) [OF assms] have "\<not> sublist m (CHR '' '' # t)" by simp
  from split_prefix [OF marker_facts(1) [OF assms(1)] this] show ?thesis
    by (simp add: after_marker_def trim_space)
qed

lemma header_markers_markers: "m \<in> set header_markers \<Longrightarrow> m \<in> set markers"
  by (simp add: markers_def)

lemma parse_line_neutral:
  assumes "\<forall>m \<in> set header_markers. \<not> sublist m l"
  shows "\<exists>v'. parse_line l v = Inr v' \<and> header_of v' = header_of v"
  using assms unfolding parse_line_def header_of_def header_markers_def str_includes_def
  by (auto split: option.splits)

lemma parse_lines_neutral:
  assumes "\<forall>l \<in> set ls. \<forall>m \<in> set header_markers. \<not> sublist m l"
  shows "\<exists>v'. parse_lines ls v = Inr v' \<and> header_of v' = header_of v"
  using assms
proof (induction ls arbitrary: v)
  case Nil
  then show ?case by simp
next
  case (Cons l ls)
  from Cons.prems parse_line_neutral [of l v] obtain v1 where
    1: "parse_line l v = Inr v1" "header_of v1 = header_of v" by auto
  from Cons.IH [of v1] Cons.prems obtain v2 where
    "parse_lines ls v1 = Inr v2" "header_of v2 = header_of v1" by auto
  with 1 show ?case by simp
qed

lemma parse_lines_append:
  "parse_lines (xs @ ys) v =
     (case parse_lines xs v of Inl e \<Rightarrow> Inl e | Inr v' \<Rightarrow> parse_lines ys v')"
  by (induction xs arbitrary: v) (auto split: sum.splits)

lemma parse_id_line:
  assumes "\<not> sublist ''// Recording ID:'' t"
  shows "parse_line (''// Recording ID: '' @ t) v = Inr (v\<lparr>p_id := trim t\<rparr>)"
proof -
  have m: "''// Recording ID:'' \<in> set markers" by (simp add: markers_def header_markers_def)
  have i: "str_includes (''// Recording ID:'' @ CHR '' '' # t) ''// Recording ID:''"
    unfolding str_includes_def by (rule prefix_imp_sublist) simp
  from after_marker_prefix [OF m assms] i show ?thesis
    unfolding parse_line_def by simp
qed

lemma parse_created_line:
  assumes "CHR ''/'' \<notin> set t"
  shows "parse_line (''// Created: '' @ t) v = Inr (v\<lparr>p_createdAt := date_parse (trim t)\<rparr>)"
proof -
  have m: "''// Created:'' \<in> set markers" "''// Recording ID:'' \<in> set markers"
    by (simp_all add: markers_def header_markers_def)
  have n: "\<not> sublist ''// Created:'' t" "\<not> sublist ''// Recording ID:'' t"
    using marker_needs_slash [OF _ assms] m by blast+
  have i: "str_includes (''// Created:'' @ CHR '' '' # t) ''// Created:''"
    unfolding str_includes_def by (rule prefix_imp_sublist) simp
  have j: "\<not> str_includes (''// Created: '' @ t) ''// Recording ID:''"
    unfolding str_includes_def using marker_after_prefix(3) [OF m(2) n(2)] by simp
  from after_marker_prefix [OF m(1) n(1)] i j show ?thesis
    unfolding parse_line_def by simp
qed

lemma parse_description_line:
  assumes "\<forall>m \<in> set header_markers. \<not> sublist m t"
  shows "parse_line (''// Description: '' @ t) v = Inr (v\<lparr>p_description := Some (trim t)\<rparr>)"
proof -
  have m: "''// Description:'' \<in> set markers" "''// Recording ID:'' \<in> set markers"
    "''// Created:'' \<in> set markers"
    by (simp_all add: markers_def header_markers_def)
  from assms have n: "\<not> sublist ''// Description:'' t" "\<not> sublist ''// Recording ID:'' t"
    "\<not> sublist ''// Created:'' t" by (simp_all add: header_markers_def)
  have i: "str_includes (''// Description:'' @ CHR '' '' # t) ''// Description:''"
    unfolding str_includes_def by (rule prefix_imp_sublist) simp
  have j: "\<not> str_includes (''// Description: '' @ t) ''// Recording ID:''"
    "\<not> str_includes (''// Description: '' @ t) ''// Created:''"
    unfolding str_includes_def
    using marker_after_prefix(4) [OF m(2) n(2)] marker_after_prefix(4) [OF m(3) n(3)]
    by simp_all
  from after_marker_prefix [OF m(1) n(1)] i j show ?thesis
    unfolding parse_line_def by simp
qed

lemma neutral_pieces:
  assumes "\<forall>l \<in> set ls. \<forall>m \<in> set header_markers. \<not> sublist m l"
    and "x \<in> set (concat (map (\<lambda>l. split l newline) ls))"
  shows "\<forall>m \<in> set header_markers. \<not> sublist m x"
proof
  fix m assume m: "m \<in> set header_markers"
  from assms(2) obtain l where l: "l \<in> set ls" "x \<in> set (split l newline)" by auto
  from l(2) have "sublist x l" by (rule split_sublist)
  with assms(1) l(1) m sublist_trans show "\<not> sublist m x" by blast
qed

lemma marker_action_lines:
  assumes "m \<in> set header_markers"
    and "\<forall>a \<in> set acts. free_of m (action_texts jp a)"
    and "l \<in> set (action_lines jp lu acts)"
  shows "\<not> sublist m l"
  using assms(2,3)
proof (induction acts arbitrary: lu)
  case Nil
  then show ?case by simp
next
  case (Cons a rest)
  note m = header_markers_markers [OF assms(1)]
  from Cons.prems have f: "free_of m (action_texts jp a)" by simp
  from assms(1) have ne: "m \<noteq> manual_marker"
    by (auto simp: header_markers_def manual_marker_def)
  from Cons.prems(2) consider "l = navigated_comment (act_url a)"
    | "l \<in> set (command_lines jp a rest)"
    | "l \<in> set (action_lines jp (Some (act_url a)) rest)"
    by (auto split: if_splits)
  then show ?case
  proof cases
    case 1
    with marker_navigated [OF m f] show ?thesis by simp
  next
    case 2
    from marker_command_lines [OF m f _ 2] ne show ?thesis by blast
  next
    case 3
    with Cons show ?thesis by simp
  qed
qed

lemma parse_body_lines:
  assumes "\<forall>m \<in> set header_markers. free_of m (metadata_texts md)"
    and "\<forall>m \<in> set header_markers. \<forall>a \<in> set acts. free_of m (action_texts jp a)"
  shows "\<exists>v'. parse_lines (concat (map (\<lambda>l. split l newline)
            (preamble_lines md @ action_lines jp lu acts @ [''});'']))) v = Inr v' \<and>
          header_of v' = header_of v"
proof -
  let ?ls = "preamble_lines md @ action_lines jp lu acts @ [''});'']"
  have "\<forall>l \<in> set ?ls. \<forall>m \<in> set header_markers. \<not> sublist m l"
  proof (intro ballI)
    fix l m assume l: "l \<in> set ?ls" and m: "m \<in> set header_markers"
    note mm = header_markers_markers [OF m]
    from l consider "l \<in> set (preamble_lines md)" | "l \<in> set (action_lines jp lu acts)"
      | "l = ''});''" by auto
    then show "\<not> sublist m l"
    proof cases
      case 1
      from marker_preamble [OF mm _ 1] assms(1) m show ?thesis by blast
    next
      case 2
      from marker_action_lines [OF m _ 2] assms(2) m show ?thesis by blast
    next
      case 3
      with marker_pieces(8) [OF mm] show ?thesis by simp
    qed
  qed
  then have "\<forall>x \<in> set (concat (map (\<lambda>l. split l newline) ?ls)).
      \<forall>m \<in> set header_markers. \<not> sublist m x"
    using neutral_pieces by blast
  then show ?thesis by (rule parse_lines_neutral)
qed

lemma split_single_lines:
  "\<forall>l \<in> set ls. single_line l \<Longrightarrow> concat (map (\<lambda>l. split l newline) ls) = ls"
proof (induction ls)
  case Nil
  then show ?case by simp
next
  case (Cons l ls)
  then have "split l newline = [l]"
    using split_single_line [of l] by (simp add: single_line_def)
  with Cons show ?case by simp
qed

lemma date_parse_stamp:
  assumes "toISOString t = Inr stamp"
  shows "date_parse stamp = t"
  using assms date_parse_iso_string by (cases t) (auto split: if_splits)

lemma parse_header_lines:
  assumes stamp: "toISOString (m_createdAt md) = Inr stamp"
    and texts: "\<forall>t \<in> set (header_texts md). trim t = t \<and> single_line t"
    and free: "\<forall>m \<in> set header_markers. free_of m (metadata_texts md)"
  shows "\<exists>v'. parse_lines (concat (map (\<lambda>l. split l newline) (header_lines md stamp))) v =
            Inr v' \<and>
          header_of v' = (m_id md, m_createdAt md,
            if truthy (m_description md) then m_description md else p_description v)"
proof -
  note mm = header_markers_markers
  from texts have sid: "single_line (m_id md)" and tid: "trim (m_id md) = m_id md"
    by (simp_all add: header_texts_def)
  have sd: "single_line (the (m_description md))"
    "trim (the (m_description md)) = the (m_description md)"
    if "truthy (m_description md)"
    using that texts by (simp_all add: header_texts_def)
  have single: "\<forall>l \<in> set (header_lines md stamp). single_line l"
    using sid sd(1) single_stamp [OF stamp]
    unfolding header_lines_def single_line_def by (auto split: if_splits)
  have pieces: "concat (map (\<lambda>l. split l newline) (header_lines md stamp)) = header_lines md stamp"
    using single by (rule split_single_lines)
  have n1: "\<forall>m \<in> set header_markers. \<not> sublist m ''import { test, expect } from '@playwright/test';''"
    using marker_pieces(1) [OF mm] by blast
  have n2: "\<forall>m \<in> set header_markers. \<not> sublist m []"
    using marker_pieces(2) [OF mm] by blast
  from parse_line_neutral [OF n1, of v] obtain v1 where
    1: "parse_line ''import { test, expect } from '@playwright/test';'' v = Inr v1"
       "header_of v1 = header_of v" by blast
  from parse_line_neutral [OF n2, of v1] obtain v2 where
    2: "parse_line [] v1 = Inr v2" "header_of v2 = header_of v1" by blast
  from free have "\<not> sublist ''// Recording ID:'' (m_id md)"
    by (simp add: header_markers_def free_of_def metadata_texts_def str_includes_def)
  from parse_id_line [OF this, of v2] tid have
    3: "parse_line (''// Recording ID: '' @ m_id md) v2 = Inr (v2\<lparr>p_id := m_id md\<rparr>)" by simp
  from parse_created_line [OF stamp_no_slash [OF stamp], of "v2\<lparr>p_id := m_id md\<rparr>"]
    trim_stamp [OF stamp] date_parse_stamp [OF stamp] have
    4: "parse_line (''// Created: '' @ stamp) (v2\<lparr>p_id := m_id md\<rparr>) =
        Inr (v2\<lparr>p_id := m_id md, p_createdAt := m_createdAt md\<rparr>)" by simp
  let ?v4 = "v2\<lparr>p_id := m_id md, p_createdAt := m_createdAt md\<rparr>"
  show ?thesis
  proof (cases "truthy (m_description md)")
    case False
    from parse_line_neutral [OF n2, of ?v4] obtain v6 where
      6: "parse_line [] ?v4 = Inr v6" "header_of v6 = header_of ?v4" by blast
    from False 1 2 3 4 6 have "parse_lines (header_lines md stamp) v = Inr v6"
      by (simp add: header_lines_def)
    moreover from False 1 2 6 have "header_of v6 = (m_id md, m_createdAt md,
        if truthy (m_description md) then m_description md else p_description v)"
      by (simp add: header_of_def)
    ultimately show ?thesis unfolding pieces by blast
  next
    case True
    then obtain d where d: "m_description md = Some d" "d \<noteq> []"
      by (cases "m_description md") auto
    from free True have "\<forall>m \<in> set header_markers. \<not> sublist m (the (m_description md))"
      by (simp add: free_of_def metadata_texts_def str_includes_def)
    from parse_description_line [OF this, of ?v4] sd(2) [OF True] d have
      5: "parse_line (''// Description: '' @ d) ?v4 = Inr (?v4\<lparr>p_description := Some d\<rparr>)"
      by simp
    from parse_line_neutral [OF n2, of "?v4\<lparr>p_description := Some d\<rparr>"] obtain v6 where
      6: "parse_line [] (?v4\<lparr>p_description := Some d\<rparr>) = Inr v6"
         "header_of v6 = header_of (?v4\<lparr>p_description := Some d\<rparr>)" by blast
    from d 1 2 3 4 5 6 have "parse_lines (header_lines md stamp) v = Inr v6"
      by (simp add: header_lines_def)
    moreover from d 6 have "header_of v6 = (m_id md, m_createdAt md,
        if truthy (m_description md) then m_description md else p_description v)"
      by (simp add: header_of_def)
    ultimately show ?thesis unfolding pieces by blast
  qed
qed

text \<open>
  C3, as the claim states it, fails. The parser trims what follows a marker, so a
  description that ends with a space comes back without it; and it reads the id from any
  line that holds \<open>// Recording ID:\<close>, so the comment written for a manual step whose
  description quotes that marker replaces the id.
\<close>

theorem header_round_trip_counterexample:
  "m_description padded_metadata = Some ''login flow '' \<and>
   (case reload no_json padded_metadata example_actions of
      Inl e \<Rightarrow> None
    | Inr r \<Rightarrow> Some (rec_description r)) = Some (Some ''login flow'') \<and>
   m_id example_metadata = ''4d6870eb-c94b-42f3-9a1f-e342420cd298'' \<and>
   (case reload no_json example_metadata [manual_step ''as in // Recording ID: 7''] of
      Inl e \<Rightarrow> None
    | Inr r \<Rightarrow> Some (rec_id r)) = Some ''7''"
  by code_simp

text \<open>
  C3, amended. Let the id and the description have no white space at either end and no
  line break, and let none of the texts that the generator copies into the script (the id,
  name, description and target site of the metadata; the URL, selector, selector text,
  value, key, coordinates and description of the actions) contain one of the markers
  \<open>// Recording ID:\<close>, \<open>// Created:\<close>, \<open>// Description:\<close>. Then parsing the generated
  script succeeds and gives back the id, the time value \<open>createdAt\<close> and the description;
  an empty description, for which no comment is written, comes back as an absent one.
\<close>

theorem header_round_trip:
  assumes "generate jp md acts = Inr script"
    and "\<forall>t \<in> set (header_texts md). trim t = t \<and> single_line t"
    and "\<forall>m \<in> set header_markers. free_of m (metadata_texts md)"
    and "\<forall>m \<in> set header_markers. \<forall>a \<in> set acts. free_of m (action_texts jp a)"
  shows "\<exists>r. parsePlaywrightScript filename script = Inr r \<and>
             rec_id r = m_id md \<and> createdAt r = m_createdAt md \<and>
             rec_description r =
               (if truthy (m_description md) then m_description md else None)"
proof -
  from generate_script [OF assms(1)] obtain stamp where
    s: "toISOString (m_createdAt md) = Inr stamp"
       "script = join (header_lines md stamp @ preamble_lines md @
                        action_lines jp (m_targetSite md) acts @ [''});'']) newline" by blast
  let ?ident = "replace_first ''.spec.ts'' [] filename"
  let ?v0 = "\<lparr>p_id = ?ident, p_name = ?ident, p_description = None, p_createdAt = Num 0,
              p_targetSite = None\<rparr>"
  let ?body = "preamble_lines md @ action_lines jp (m_targetSite md) acts @ [''});'']"
  have sp: "split script newline =
      concat (map (\<lambda>l. split l newline) (header_lines md stamp)) @
      concat (map (\<lambda>l. split l newline) ?body)"
    unfolding s(2) using split_join [of "header_lines md stamp @ ?body"] by simp
  from parse_header_lines [OF s(1) assms(2,3), of ?v0] obtain v1 where
    1: "parse_lines (concat (map (\<lambda>l. split l newline) (header_lines md stamp))) ?v0 = Inr v1"
       "header_of v1 = (m_id md, m_createdAt md,
          if truthy (m_description md) then m_description md else None)" by auto
  from parse_body_lines [OF assms(3,4), of "m_targetSite md" v1] obtain v2 where
    2: "parse_lines (concat (map (\<lambda>l. split l newline) ?body)) v1 = Inr v2"
       "header_of v2 = header_of v1" by blast
  from 1 2 have "parse_lines (split script newline) ?v0 = Inr v2"
    unfolding sp parse_lines_append by simp
  moreover from 1(2) 2(2) have "p_id v2 = m_id md" "p_createdAt v2 = m_createdAt md"
    "p_description v2 = (if truthy (m_description md) then m_description md else None)"
    by (simp_all add: header_of_def)
  ultimately show ?thesis
    by (simp add: parsePlaywrightScript_def Let_def)
qed

theorem header_round_trip_witness:
  "list_all (\<lambda>t. trim t = t \<and> single_line t) (header_texts example_metadata) \<and>
   list_all (\<lambda>m. free_of m (metadata_texts example_metadata)) header_markers \<and>
   list_all (\<lambda>m. list_all (\<lambda>a. free_of m (action_texts no_json a)) example_actions)
     header_markers \<and>
   (\<exists>script r. generate no_json example_metadata example_actions = Inr script \<and>
      parsePlaywrightScript ''x.spec.ts'' script = Inr r \<and>
      rec_id r = ''4d6870eb-c94b-42f3-9a1f-e342420cd298'' \<and>
      createdAt r = Num 1763340907065 \<and> rec_description r = Some ''login flow'')"
proof -
  have a: "list_all (\<lambda>t. trim t = t \<and> single_line t) (header_texts example_metadata)"
    by code_simp
  have b: "list_all (\<lambda>m. free_of m (metadata_texts example_metadata)) header_markers"
    by code_simp
  have c: "list_all (\<lambda>m. list_all (\<lambda>a. free_of m (action_texts no_json a)) example_actions)
      header_markers"
    by code_simp
  have "toISOString (m_createdAt example_metadata) = Inr ''2025-11-17T00:55:07.065Z''"
    by code_simp
  from generate_total [OF this] obtain script where
    g: "generate no_json example_metadata example_actions = Inr script" by blast
  from a have a': "\<forall>t \<in> set (header_texts example_metadata). trim t = t \<and> single_line t"
    by (simp only: list_all_iff)
  from b have b': "\<forall>m \<in> set header_markers. free_of m (metadata_texts example_metadata)"
    by (simp only: list_all_iff)
  from c have c': "\<forall>m \<in> set header_markers. \<forall>a \<in> set example_actions.
      free_of m (action_texts no_json a)"
    by (simp only: list_all_iff)
  from header_round_trip [OF g a' b' c', of "''x.spec.ts''"] g a b c show ?thesis
    by (auto simp: example_metadata_def)
qed

end
